theory Spec2Isabelle
  imports Complex_Main "HOL-Library.Monad_Syntax"
begin

section \<open>The d2q9-bgk lattice Boltzmann kernel of \<^verbatim>\<open>d2q9-bgk_ver3.c\<close>\<close>

text \<open>
  The embedding follows the C source function by function. Its conventions:
  \<^item> a C \<^verbatim>\<open>float\<close> is a \<open>real\<close>: rounding is ignored, the arithmetic is exact. The one
    place where exact arithmetic has no value, a division by zero, is written out by
    \<open>float_div\<close>, which returns what IEEE-754 division returns there (a NaN for 0/0,
    an infinity otherwise). What rounding changes is shown apart: \<open>propagate_av32\<close> is
    the average velocity of a step with every operation rounded to binary32;
  \<^item> a C \<^verbatim>\<open>int\<close> is an \<open>int\<close>; the index expressions of the source stay below
    \<open>nx * ny\<close>, and \<open>grid_ok\<close> bounds that product by \<^verbatim>\<open>INT_MAX\<close>, so that no
    expression overflows;
  \<^item> a buffer obtained from \<^verbatim>\<open>_mm_malloc\<close> is a list; every read and write of the
    source is checked against the length of the list (\<open>rd\<close>, \<open>wr_speed\<close>), and
    an access out of range (undefined behaviour in C) makes the function return \<open>None\<close>;
  \<^item> the functions return \<open>None\<close> as well when a fluid cell divides by a zero local
    density: the program does not stop there, it stores values that are not numbers and
    goes on, and a grid of reals cannot hold them. So \<open>None\<close> is a run that has left the
    numbers or the buffers, never a run that ends early, and a statement about the values
    of a run states first that the run is a \<open>Some\<close>;
  \<^item> the two grids \<^verbatim>\<open>cells\<close> and \<^verbatim>\<open>tmp_cells\<close> are separate allocations, so they are
    separate values, passed in and returned;
  \<^item> the loops run in the order of the source; the alignment and vectorisation pragmas
    have no counterpart.
\<close>

subsection \<open>Data\<close>

record t_param =
  nx :: int
  ny :: int
  maxIters :: int
  reynolds_dim :: int
  density :: real
  accel :: real
  omega :: real

text \<open>\<^verbatim>\<open>t_speed\<close>: \<^verbatim>\<open>float* speeds[NSPEEDS]\<close>, nine channels of \<open>nx * ny\<close> values each.\<close>
type_synonym t_speed = "real list list"

definition NSPEEDS :: nat where
  "NSPEEDS = 9"

text \<open>The value of a \<^verbatim>\<open>float\<close> division, and of what is computed from one.\<close>
datatype cfloat = Num real | Infinity | NaN

definition float_div :: "real \<Rightarrow> real \<Rightarrow> cfloat" where
  "float_div a b = (if b \<noteq> 0 then Num (a / b) else if a = 0 then NaN else Infinity)"

subsection \<open>Checked memory access\<close>

definition rd :: "'a list \<Rightarrow> int \<Rightarrow> 'a option" where
  "rd xs i = (if 0 \<le> i \<and> i < int (length xs) then Some (xs ! nat i) else None)"

definition rd_speed :: "t_speed \<Rightarrow> nat \<Rightarrow> int \<Rightarrow> real option" where
  "rd_speed cells k i = (if k < length cells then rd (cells ! k) i else None)"

definition wr :: "'a list \<Rightarrow> int \<Rightarrow> 'a \<Rightarrow> 'a list option" where
  "wr xs i v = (if 0 \<le> i \<and> i < int (length xs) then Some (xs[nat i := v]) else None)"

definition wr_speed :: "t_speed \<Rightarrow> nat \<Rightarrow> int \<Rightarrow> real \<Rightarrow> t_speed option" where
  "wr_speed cells k i v =
     (if k < length cells
      then (case wr (cells ! k) i v of None \<Rightarrow> None | Some c \<Rightarrow> Some (cells[k := c]))
      else None)"

text \<open>The nine stores \<^verbatim>\<open>tmp_cells->speeds[k][idx] = v\<^sub>k\<close>, in the order of the source.\<close>
definition store_cell :: "t_speed \<Rightarrow> int \<Rightarrow> real list \<Rightarrow> t_speed option" where
  "store_cell tmp_cells idx vs = do {
     t0 \<leftarrow> wr_speed tmp_cells 0 idx (vs ! 0);
     t1 \<leftarrow> wr_speed t0 1 idx (vs ! 1);
     t2 \<leftarrow> wr_speed t1 2 idx (vs ! 2);
     t3 \<leftarrow> wr_speed t2 3 idx (vs ! 3);
     t4 \<leftarrow> wr_speed t3 4 idx (vs ! 4);
     t5 \<leftarrow> wr_speed t4 5 idx (vs ! 5);
     t6 \<leftarrow> wr_speed t5 6 idx (vs ! 6);
     t7 \<leftarrow> wr_speed t6 7 idx (vs ! 7);
     wr_speed t7 8 idx (vs ! 8)
   }"

subsection \<open>Loops\<close>

text \<open>\<^verbatim>\<open>for (int i = lo; i < n; i++) body\<close>, the body threading the state.\<close>
function for_loop :: "int \<Rightarrow> int \<Rightarrow> (int \<Rightarrow> 's \<Rightarrow> 's option) \<Rightarrow> 's \<Rightarrow> 's option" where
  "for_loop i n body s =
     (if i < n
      then (case body i s of None \<Rightarrow> None | Some s' \<Rightarrow> for_loop (i + 1) n body s')
      else Some s)"
  by pat_completeness auto
termination
  by (relation "measure (\<lambda>(i, n, body, s). nat (n - i))") auto

declare for_loop.simps [simp del]

text \<open>\<^verbatim>\<open>for (int tt = lo; tt < n; tt = tt + 2) body\<close>.\<close>
function for_loop2 :: "int \<Rightarrow> int \<Rightarrow> (int \<Rightarrow> 's \<Rightarrow> 's option) \<Rightarrow> 's \<Rightarrow> 's option" where
  "for_loop2 i n body s =
     (if i < n
      then (case body i s of None \<Rightarrow> None | Some s' \<Rightarrow> for_loop2 (i + 2) n body s')
      else Some s)"
  by pat_completeness auto
termination
  by (relation "measure (\<lambda>(i, n, body, s). nat (n - i))") auto

declare for_loop2.simps [simp del]

subsection \<open>Well-formed grids\<close>

text \<open>
  A grid has at least one column and one row, and its number of cells fits an \<^verbatim>\<open>int\<close>.
  The channels of a grid and the obstacle array have one entry per cell (lines 159, 160
  and 528 of the source).
\<close>
definition grid_ok :: "t_param \<Rightarrow> bool" where
  "grid_ok p = (0 < nx p \<and> 0 < ny p \<and> nx p * ny p \<le> 2147483647)"

definition wf_speed :: "t_param \<Rightarrow> t_speed \<Rightarrow> bool" where
  "wf_speed p cells =
     (length cells = 9 \<and> list_all (\<lambda>c. length c = nat (nx p * ny p)) cells)"

definition wf_obstacles :: "t_param \<Rightarrow> int list \<Rightarrow> bool" where
  "wf_obstacles p obstacles = (length obstacles = nat (nx p * ny p))"

subsection \<open>\<^verbatim>\<open>propagate\<close>: streaming, bounce-back and collision in one pass\<close>

text \<open>
  The velocity of each speed, from the numbering at the head of the source file and the
  directional components \<^verbatim>\<open>u1 .. u8\<close> of \<^verbatim>\<open>propagate\<close>: (x, y), x to the east, y to the
  north.
\<close>
definition velocity :: "nat \<Rightarrow> int \<times> int" where
  "velocity k = [(0, 0), (1, 0), (0, 1), (- 1, 0), (0, - 1),
                 (1, 1), (- 1, 1), (- 1, - 1), (1, - 1)] ! k"

text \<open>
  Lines 307 to 322: the neighbour indices and the nine reads. \<^verbatim>\<open>%\<close> is applied to
  non-negative operands only (the loops keep \<open>0 \<le> jj < ny\<close> and \<open>0 \<le> ii < nx\<close>), where
  it agrees with \<open>mod\<close>.
\<close>
definition gather :: "t_param \<Rightarrow> t_speed \<Rightarrow> int \<Rightarrow> int \<Rightarrow> real list option" where
  "gather p cells jj ii =
     (let y_n = (jj + 1) mod ny p;
          x_e = (ii + 1) mod nx p;
          y_s = (if jj = 0 then jj + ny p - 1 else jj - 1);
          x_w = (if ii = 0 then ii + nx p - 1 else ii - 1)
      in do {
        speeds0 \<leftarrow> rd_speed cells 0 (ii + jj * nx p);
        speeds1 \<leftarrow> rd_speed cells 1 (x_w + jj * nx p);
        speeds2 \<leftarrow> rd_speed cells 2 (ii + y_s * nx p);
        speeds3 \<leftarrow> rd_speed cells 3 (x_e + jj * nx p);
        speeds4 \<leftarrow> rd_speed cells 4 (ii + y_n * nx p);
        speeds5 \<leftarrow> rd_speed cells 5 (x_w + y_s * nx p);
        speeds6 \<leftarrow> rd_speed cells 6 (x_e + y_s * nx p);
        speeds7 \<leftarrow> rd_speed cells 7 (x_e + y_n * nx p);
        speeds8 \<leftarrow> rd_speed cells 8 (x_w + y_n * nx p);
        Some [speeds0, speeds1, speeds2, speeds3, speeds4, speeds5, speeds6, speeds7, speeds8]
      })"

text \<open>Line 326, and the numerators of lines 328 and 330.\<close>
definition local_density_of :: "real list \<Rightarrow> real" where
  "local_density_of s = s ! 0 + s ! 1 + s ! 2 + s ! 3 + s ! 4 + s ! 5 + s ! 6 + s ! 7 + s ! 8"

definition x_momentum :: "real list \<Rightarrow> real" where
  "x_momentum s = s ! 1 + s ! 5 + s ! 8 - s ! 3 - s ! 6 - s ! 7"

definition y_momentum :: "real list \<Rightarrow> real" where
  "y_momentum s = s ! 2 + s ! 5 + s ! 6 - s ! 4 - s ! 7 - s ! 8"

text \<open>Lines 337 to 345: the values stored for an obstacle cell.\<close>
definition rebound_values :: "real list \<Rightarrow> real list" where
  "rebound_values s = [s ! 0, s ! 3, s ! 4, s ! 1, s ! 2, s ! 7, s ! 8, s ! 5, s ! 6]"

text \<open>Lines 348 to 373: the equilibrium densities.\<close>
definition d_equ :: "real \<Rightarrow> real \<Rightarrow> real \<Rightarrow> real list" where
  "d_equ local_density u_x u_y =
     (let c_sq = 1 / 3;
          c_2sq2 = 2 * c_sq * c_sq;
          c_2sq = 2 * c_sq;
          w0 = 4 / 9;
          w1 = 1 / 9;
          w2 = 1 / 36;
          u_sq = u_x * u_x + u_y * u_y;
          u1 = u_x;
          u2 = u_y;
          u3 = - u_x;
          u4 = - u_y;
          u5 = u_x + u_y;
          u6 = - u_x + u_y;
          u7 = - u_x - u_y;
          u8 = u_x - u_y
      in [w0 * local_density * (1 - u_sq / c_2sq),
          w1 * local_density * (1 + u1 / c_sq + (u1 * u1) / c_2sq2 - u_sq / c_2sq),
          w1 * local_density * (1 + u2 / c_sq + (u2 * u2) / c_2sq2 - u_sq / c_2sq),
          w1 * local_density * (1 + u3 / c_sq + (u3 * u3) / c_2sq2 - u_sq / c_2sq),
          w1 * local_density * (1 + u4 / c_sq + (u4 * u4) / c_2sq2 - u_sq / c_2sq),
          w2 * local_density * (1 + u5 / c_sq + (u5 * u5) / c_2sq2 - u_sq / c_2sq),
          w2 * local_density * (1 + u6 / c_sq + (u6 * u6) / c_2sq2 - u_sq / c_2sq),
          w2 * local_density * (1 + u7 / c_sq + (u7 * u7) / c_2sq2 - u_sq / c_2sq),
          w2 * local_density * (1 + u8 / c_sq + (u8 * u8) / c_2sq2 - u_sq / c_2sq)])"

text \<open>Lines 376 to 384: the relaxation step.\<close>
definition relax_values :: "real \<Rightarrow> real list \<Rightarrow> real list \<Rightarrow> real list" where
  "relax_values om s d =
     [s ! 0 + om * (d ! 0 - s ! 0),
      s ! 1 + om * (d ! 1 - s ! 1),
      s ! 2 + om * (d ! 2 - s ! 2),
      s ! 3 + om * (d ! 3 - s ! 3),
      s ! 4 + om * (d ! 4 - s ! 4),
      s ! 5 + om * (d ! 5 - s ! 5),
      s ! 6 + om * (d ! 6 - s ! 6),
      s ! 7 + om * (d ! 7 - s ! 7),
      s ! 8 + om * (d ! 8 - s ! 8)]"

text \<open>
  The body of the inner loop, lines 305 to 388. The state is the scratch grid and the two
  accumulators \<^verbatim>\<open>tot_u\<close> and \<^verbatim>\<open>tot_cells\<close>. The source tests \<^verbatim>\<open>obstacles[ii + jj*nx]\<close>
  three times (lines 333, 387, 388) with no store to it in between; the model reads it
  once. \<^verbatim>\<open>u_x\<close> and \<^verbatim>\<open>u_y\<close> are computed for every cell and used by fluid cells only.
\<close>
definition propagate_cell ::
  "t_param \<Rightarrow> t_speed \<Rightarrow> int list \<Rightarrow> int \<Rightarrow> int \<Rightarrow> t_speed \<times> real \<times> int
     \<Rightarrow> (t_speed \<times> real \<times> int) option" where
  "propagate_cell p cells obstacles jj ii st =
     (case st of (tmp_cells, tot_u, tot_cells) \<Rightarrow> do {
        s \<leftarrow> gather p cells jj ii;
        let local_density = local_density_of s;
        let u_x = float_div (x_momentum s) local_density;
        let u_y = float_div (y_momentum s) local_density;
        ob \<leftarrow> rd obstacles (ii + jj * nx p);
        if ob \<noteq> 0
        then do {
          t \<leftarrow> store_cell tmp_cells (ii + jj * nx p) (rebound_values s);
          Some (t, tot_u + 0, tot_cells + 0)
        }
        else (case (u_x, u_y) of
            (Num ux, Num uy) \<Rightarrow> do {
              t \<leftarrow> store_cell tmp_cells (ii + jj * nx p)
                     (relax_values (omega p) s (d_equ local_density ux uy));
              Some (t, tot_u + sqrt (ux * ux + uy * uy), tot_cells + 1)
            }
          | _ \<Rightarrow> None)
      })"

definition propagate ::
  "t_param \<Rightarrow> t_speed \<Rightarrow> t_speed \<Rightarrow> int list \<Rightarrow> (t_speed \<times> cfloat) option" where
  "propagate p cells tmp_cells obstacles = do {
     (t, tot_u, tot_cells) \<leftarrow>
        for_loop 0 (ny p) (\<lambda>jj. for_loop 0 (nx p) (propagate_cell p cells obstacles jj))
          (tmp_cells, 0, 0);
     Some (t, float_div tot_u (real_of_int tot_cells))
   }"

subsection \<open>\<^verbatim>\<open>accelerate_flow\<close> and \<^verbatim>\<open>timestep\<close>\<close>

text \<open>
  The body of the loop of lines 242 to 260, for column \<open>ii\<close> of row \<open>ny - 2\<close>. The
  condition is a chain of \<^verbatim>\<open>&&\<close>: a later operand is read only when the earlier ones
  hold. \<^verbatim>\<open>+=\<close> and \<^verbatim>\<open>-=\<close> read the element and store it back.
\<close>
definition accelerate_cell :: "t_param \<Rightarrow> int list \<Rightarrow> int \<Rightarrow> t_speed \<Rightarrow> t_speed option" where
  "accelerate_cell p obstacles ii cells =
     (let w1 = density p * accel p / 9;
          w2 = density p * accel p / 36;
          jj = ny p - 2;
          idx = ii + jj * nx p
      in do {
        ob \<leftarrow> rd obstacles idx;
        if ob \<noteq> 0 then Some cells
        else do {
          c3 \<leftarrow> rd_speed cells 3 idx;
          if \<not> (c3 - w1 > 0) then Some cells
          else do {
            c6 \<leftarrow> rd_speed cells 6 idx;
            if \<not> (c6 - w2 > 0) then Some cells
            else do {
              c7 \<leftarrow> rd_speed cells 7 idx;
              if \<not> (c7 - w2 > 0) then Some cells
              else do {
                a1 \<leftarrow> rd_speed cells 1 idx;
                t1 \<leftarrow> wr_speed cells 1 idx (a1 + w1);
                a5 \<leftarrow> rd_speed t1 5 idx;
                t5 \<leftarrow> wr_speed t1 5 idx (a5 + w2);
                a8 \<leftarrow> rd_speed t5 8 idx;
                t8 \<leftarrow> wr_speed t5 8 idx (a8 + w2);
                a3 \<leftarrow> rd_speed t8 3 idx;
                t3 \<leftarrow> wr_speed t8 3 idx (a3 - w1);
                a6 \<leftarrow> rd_speed t3 6 idx;
                t6 \<leftarrow> wr_speed t3 6 idx (a6 - w2);
                a7 \<leftarrow> rd_speed t6 7 idx;
                wr_speed t6 7 idx (a7 - w2)
              }
            }
          }
        }
      })"

definition accelerate_flow :: "t_param \<Rightarrow> t_speed \<Rightarrow> int list \<Rightarrow> t_speed option" where
  "accelerate_flow p cells obstacles = for_loop 0 (nx p) (accelerate_cell p obstacles) cells"

text \<open>
  \<^verbatim>\<open>timestep\<close> returns the grid it accelerated in place, the scratch grid it filled and
  the average velocity.
\<close>
definition timestep ::
  "t_param \<Rightarrow> t_speed \<Rightarrow> t_speed \<Rightarrow> int list \<Rightarrow> (t_speed \<times> t_speed \<times> cfloat) option" where
  "timestep p cells tmp_cells obstacles = do {
     c \<leftarrow> accelerate_flow p cells obstacles;
     (t, av_vel) \<leftarrow> propagate p c tmp_cells obstacles;
     Some (c, t, av_vel)
   }"

subsection \<open>\<^verbatim>\<open>main\<close>: initial densities and the timestep loop\<close>


text \<open>
  Lines 192 to 201. The state is the two grids and \<^verbatim>\<open>av_vels\<close>, the buffer of
  \<^verbatim>\<open>maxIters\<close> floats that \<^verbatim>\<open>initialise\<close> allocates (line 573). The second call of
  \<^verbatim>\<open>timestep\<close> has the roles of the two grids exchanged.
\<close>
definition main_body ::
  "t_param \<Rightarrow> int list \<Rightarrow> int \<Rightarrow> t_speed \<times> t_speed \<times> cfloat list
     \<Rightarrow> (t_speed \<times> t_speed \<times> cfloat list) option" where
  "main_body p obstacles tt st =
     (case st of (cells, tmp_cells, av_vels) \<Rightarrow> do {
        (c1, t1, v1) \<leftarrow> timestep p cells tmp_cells obstacles;
        av1 \<leftarrow> wr av_vels tt v1;
        (t2, c2, v2) \<leftarrow> timestep p t1 c1 obstacles;
        av2 \<leftarrow> wr av1 (tt + 1) v2;
        Some (c2, t2, av2)
      })"

definition main_loop ::
  "t_param \<Rightarrow> int list \<Rightarrow> t_speed \<times> t_speed \<times> cfloat list
     \<Rightarrow> (t_speed \<times> t_speed \<times> cfloat list) option" where
  "main_loop p obstacles st = for_loop2 0 (maxIters p) (main_body p obstacles) st"

text \<open>
  \<open>n\<close> consecutive timesteps, the two grids exchanging roles after each one as in the
  body of the loop of \<^verbatim>\<open>main\<close>: the result is the current grid, the scratch grid and
  the average velocities in order.
\<close>
fun timesteps ::
  "t_param \<Rightarrow> int list \<Rightarrow> nat \<Rightarrow> t_speed \<Rightarrow> t_speed
     \<Rightarrow> (t_speed \<times> t_speed \<times> cfloat list) option" where
  "timesteps p obstacles 0 cells tmp_cells = Some (cells, tmp_cells, [])"
| "timesteps p obstacles (Suc n) cells tmp_cells =
     (case timestep p cells tmp_cells obstacles of
        None \<Rightarrow> None
      | Some (c, t, v) \<Rightarrow>
          (case timesteps p obstacles n t c of
             None \<Rightarrow> None
           | Some (a, b, vs) \<Rightarrow> Some (a, b, v # vs)))"

subsection \<open>\<^verbatim>\<open>total_density\<close> and \<^verbatim>\<open>write_values\<close>\<close>

text \<open>Lines 607 to 623.\<close>
definition total_density :: "t_param \<Rightarrow> t_speed \<Rightarrow> real option" where
  "total_density p cells =
     for_loop 0 (ny p)
       (\<lambda>jj. for_loop 0 (nx p)
          (\<lambda>ii. for_loop 0 (int NSPEEDS)
             (\<lambda>kk total. do {
                v \<leftarrow> rd_speed cells (nat kk) (ii + jj * nx p);
                Some (total + v)
              })))
       0"

text \<open>\<^verbatim>\<open>sqrtf((u_x * u_x) + (u_y * u_y))\<close> on the values of two divisions.\<close>
fun cfloat_norm :: "cfloat \<Rightarrow> cfloat \<Rightarrow> cfloat" where
  "cfloat_norm (Num a) (Num b) = Num (sqrt (a * a + b * b))"
| "cfloat_norm NaN _ = NaN"
| "cfloat_norm _ NaN = NaN"
| "cfloat_norm _ _ = Infinity"

text \<open>
  One line of the final state, lines 646 to 685: the fields \<^verbatim>\<open>ii jj u_x u_y u pressure\<close>
  and the obstacle flag, which the source reads at \<^verbatim>\<open>obstacles[ii * params.nx + jj]\<close>.
\<close>
type_synonym out_line = "int \<times> int \<times> cfloat \<times> cfloat \<times> cfloat \<times> real \<times> int"

definition write_cell ::
  "t_param \<Rightarrow> t_speed \<Rightarrow> int list \<Rightarrow> int \<Rightarrow> int \<Rightarrow> out_line option" where
  "write_cell p cells obstacles jj ii =
     (let c_sq = 1 / 3; idx = ii + jj * nx p
      in do {
        ob \<leftarrow> rd obstacles idx;
        (u_x, u_y, u, pressure) \<leftarrow>
          (if ob \<noteq> 0 then Some (Num 0, Num 0, Num 0, density p * c_sq)
           else do {
             local_density \<leftarrow>
               for_loop 0 (int NSPEEDS)
                 (\<lambda>kk ld. do { v \<leftarrow> rd_speed cells (nat kk) idx; Some (ld + v) }) 0;
             c1 \<leftarrow> rd_speed cells 1 idx;
             c5 \<leftarrow> rd_speed cells 5 idx;
             c8 \<leftarrow> rd_speed cells 8 idx;
             c3 \<leftarrow> rd_speed cells 3 idx;
             c6 \<leftarrow> rd_speed cells 6 idx;
             c7 \<leftarrow> rd_speed cells 7 idx;
             c2 \<leftarrow> rd_speed cells 2 idx;
             c4 \<leftarrow> rd_speed cells 4 idx;
             let u_x = float_div (c1 + c5 + c8 - (c3 + c6 + c7)) local_density;
             let u_y = float_div (c2 + c5 + c6 - (c4 + c7 + c8)) local_density;
             Some (u_x, u_y, cfloat_norm u_x u_y, local_density * c_sq)
           });
        flag \<leftarrow> rd obstacles (ii * nx p + jj);
        Some (ii, jj, u_x, u_y, u, pressure, flag)
      })"

definition write_values :: "t_param \<Rightarrow> t_speed \<Rightarrow> int list \<Rightarrow> out_line list option" where
  "write_values p cells obstacles =
     for_loop 0 (ny p)
       (\<lambda>jj. for_loop 0 (nx p)
          (\<lambda>ii out. do {
             l \<leftarrow> write_cell p cells obstacles jj ii;
             Some (out @ [l])
           }))
       []"

subsection \<open>The average velocity of \<^verbatim>\<open>propagate\<close> in binary32\<close>

text \<open>
  The definitions above compute in exact arithmetic. Those of this subsection round the
  result of every operation to binary32, the \<^verbatim>\<open>float\<close> of the source, in the lines that
  decide the average velocity that a step returns.
\<close>
















subsection \<open>The terms of the specification\<close>

text \<open>The direction opposite to each speed.\<close>
definition opposite :: "nat \<Rightarrow> nat" where
  "opposite k = [0, 3, 4, 1, 2, 7, 8, 5, 6] ! k"

text \<open>
  The equilibrium value as the specification writes it: the weight of the channel, and
  \<open>u_k\<close> the projection of the velocity onto the direction of the channel.
\<close>
definition weight :: "nat \<Rightarrow> real" where
  "weight k = (if k = 0 then 4 / 9 else if k \<le> 4 then 1 / 9 else 1 / 36)"

definition u_dir :: "nat \<Rightarrow> real \<Rightarrow> real \<Rightarrow> real" where
  "u_dir k ux uy = real_of_int (fst (velocity k)) * ux + real_of_int (snd (velocity k)) * uy"

definition eq_spec :: "nat \<Rightarrow> real \<Rightarrow> real \<Rightarrow> real \<Rightarrow> real" where
  "eq_spec k local_density ux uy =
     (let c_sq = 1 / 3; u_sq = ux\<^sup>2 + uy\<^sup>2; u_k = u_dir k ux uy
      in weight k * local_density
           * (1 + u_k / c_sq + u_k\<^sup>2 / (2 * c_sq\<^sup>2) - u_sq / (2 * c_sq)))"



text \<open>The sum of all values of a grid, and the linear index of a cell.\<close>
definition grid_sum :: "t_speed \<Rightarrow> real" where
  "grid_sum cells = sum_list (map sum_list cells)"

definition cell_index :: "t_param \<Rightarrow> int \<Rightarrow> int \<Rightarrow> nat" where
  "cell_index p jj ii = nat (ii + jj * nx p)"

subsection \<open>The terms of the proofs\<close>

text \<open>The grid \<open>t\<close> with the nine values \<open>vs\<close> stored in cell \<open>i\<close>.\<close>
definition put_cell :: "t_speed \<Rightarrow> nat \<Rightarrow> real list \<Rightarrow> t_speed" where
  "put_cell t i vs = map (\<lambda>(c, v). c[i := v]) (zip t vs)"

text \<open>
  The nine values that \<open>gather\<close> reads for the cell of row \<open>jj\<close> and column \<open>ii\<close>,
  and for the cell of linear index \<open>i\<close>.
\<close>
definition upstream :: "t_param \<Rightarrow> t_speed \<Rightarrow> int \<Rightarrow> int \<Rightarrow> real list" where
  "upstream p cells jj ii =
     [cells ! 0 ! nat (ii + jj * nx p),
      cells ! 1 ! nat ((ii - 1) mod nx p + jj * nx p),
      cells ! 2 ! nat (ii + ((jj - 1) mod ny p) * nx p),
      cells ! 3 ! nat ((ii + 1) mod nx p + jj * nx p),
      cells ! 4 ! nat (ii + ((jj + 1) mod ny p) * nx p),
      cells ! 5 ! nat ((ii - 1) mod nx p + ((jj - 1) mod ny p) * nx p),
      cells ! 6 ! nat ((ii + 1) mod nx p + ((jj - 1) mod ny p) * nx p),
      cells ! 7 ! nat ((ii + 1) mod nx p + ((jj + 1) mod ny p) * nx p),
      cells ! 8 ! nat ((ii - 1) mod nx p + ((jj + 1) mod ny p) * nx p)]"

definition upstream_at :: "t_param \<Rightarrow> t_speed \<Rightarrow> nat \<Rightarrow> real list" where
  "upstream_at p cells i = upstream p cells (int i div nx p) (int i mod nx p)"

text \<open>
  For gathered values \<open>s\<close> and obstacle flag \<open>ob\<close>: the velocity magnitude of a fluid
  cell, the nine values stored in the scratch grid, and whether the cell is an obstacle
  or divides by a local density other than zero.
\<close>
definition speed_of :: "real list \<Rightarrow> real" where
  "speed_of s =
     (let u_x = x_momentum s / local_density_of s;
          u_y = y_momentum s / local_density_of s
      in sqrt (u_x * u_x + u_y * u_y))"

definition new_values :: "t_param \<Rightarrow> real list \<Rightarrow> int \<Rightarrow> real list" where
  "new_values p s ob =
     (if ob \<noteq> 0 then rebound_values s
      else relax_values (omega p) s
             (d_equ (local_density_of s) (x_momentum s / local_density_of s)
                (y_momentum s / local_density_of s)))"

definition cell_defined :: "real list \<Rightarrow> int \<Rightarrow> bool" where
  "cell_defined s ob = (ob \<noteq> 0 \<or> local_density_of s \<noteq> 0)"

text \<open>
  The two accumulators after the first \<open>m\<close> cells in row-major order, and the state
  of the loops of \<open>propagate\<close> at that point.
\<close>
definition tot_u_of :: "t_param \<Rightarrow> t_speed \<Rightarrow> int list \<Rightarrow> nat \<Rightarrow> real" where
  "tot_u_of p cells obstacles m =
     (\<Sum>i<m. if obstacles ! i \<noteq> 0 then 0 else speed_of (upstream_at p cells i))"

definition tot_cells_of :: "int list \<Rightarrow> nat \<Rightarrow> int" where
  "tot_cells_of obstacles m = (\<Sum>i<m. if obstacles ! i \<noteq> 0 then 0 else 1)"

definition propagated ::
  "t_param \<Rightarrow> t_speed \<Rightarrow> int list \<Rightarrow> nat \<Rightarrow> t_speed \<times> real \<times> int \<Rightarrow> bool" where
  "propagated p cells obstacles m st =
     (case st of (t, u, c) \<Rightarrow>
        wf_speed p t
        \<and> (\<forall>i<m. cell_defined (upstream_at p cells i) (obstacles ! i)
              \<and> (\<forall>k<9. t ! k ! i = new_values p (upstream_at p cells i) (obstacles ! i) ! k))
        \<and> u = tot_u_of p cells obstacles m
        \<and> c = tot_cells_of obstacles m)"

text \<open>
  The change \<open>accelerate_flow\<close> makes to channel \<open>k\<close> of a cell it updates, and the
  condition of line 246 on cell \<open>i\<close>.
\<close>
definition forcing_delta :: "t_param \<Rightarrow> nat \<Rightarrow> real" where
  "forcing_delta p k =
     (let w1 = density p * accel p / 9; w2 = density p * accel p / 36
      in [0, w1, 0, - w1, 0, w2, - w2, - w2, w2] ! k)"

definition forcing_applies :: "t_param \<Rightarrow> t_speed \<Rightarrow> int list \<Rightarrow> nat \<Rightarrow> bool" where
  "forcing_applies p cells obstacles i =
     (obstacles ! i = 0
      \<and> 0 < cells ! 3 ! i - density p * accel p / 9
      \<and> 0 < cells ! 6 ! i - density p * accel p / 36
      \<and> 0 < cells ! 7 ! i - density p * accel p / 36)"

definition forced_values :: "t_param \<Rightarrow> t_speed \<Rightarrow> nat \<Rightarrow> real list" where
  "forced_values p cells i =
     [cells ! 0 ! i + forcing_delta p 0, cells ! 1 ! i + forcing_delta p 1,
      cells ! 2 ! i + forcing_delta p 2, cells ! 3 ! i + forcing_delta p 3,
      cells ! 4 ! i + forcing_delta p 4, cells ! 5 ! i + forcing_delta p 5,
      cells ! 6 ! i + forcing_delta p 6, cells ! 7 ! i + forcing_delta p 7,
      cells ! 8 ! i + forcing_delta p 8]"

text \<open>
  The grid after \<open>accelerate_flow\<close> has gone through the first \<open>m\<close> columns of row
  \<open>ny - 2\<close>.
\<close>
definition accelerated ::
  "t_param \<Rightarrow> t_speed \<Rightarrow> int list \<Rightarrow> nat \<Rightarrow> t_speed \<Rightarrow> bool" where
  "accelerated p cells obstacles m c =
     (wf_speed p c
      \<and> (\<forall>k<9. \<forall>i<nat (nx p * ny p).
            c ! k ! i =
              (if nat ((ny p - 2) * nx p) \<le> i \<and> i < nat ((ny p - 2) * nx p) + m
                  \<and> forcing_applies p cells obstacles i
               then cells ! k ! i + forcing_delta p k
               else cells ! k ! i)))"

text \<open>
  The grid that \<open>accelerate_flow\<close> leaves, cell by cell: a cell of row \<open>ny - 2\<close> that
  passes the condition of line 246 is changed by \<open>forcing_delta\<close>, every other cell is
  kept.
\<close>
definition forced_grid :: "t_param \<Rightarrow> t_speed \<Rightarrow> int list \<Rightarrow> t_speed" where
  "forced_grid p cells obstacles =
     map (\<lambda>k. map (\<lambda>i.
            if nat ((ny p - 2) * nx p) \<le> i \<and> i < nat ((ny p - 2) * nx p) + nat (nx p)
               \<and> forcing_applies p cells obstacles i
            then cells ! k ! i + forcing_delta p k
            else cells ! k ! i) [0..<nat (nx p * ny p)]) [0..<9]"

text \<open>The sum of the nine channels of cell \<open>i\<close>.\<close>
definition cell_sum :: "t_speed \<Rightarrow> nat \<Rightarrow> real" where
  "cell_sum cells i =
     cells ! 0 ! i + cells ! 1 ! i + cells ! 2 ! i + cells ! 3 ! i + cells ! 4 ! i
       + cells ! 5 ! i + cells ! 6 ! i + cells ! 7 ! i + cells ! 8 ! i"

text \<open>The cell \<open>(dx, dy)\<close> away from cell \<open>i\<close> on the torus.\<close>
definition shift :: "t_param \<Rightarrow> int \<Rightarrow> int \<Rightarrow> nat \<Rightarrow> nat" where
  "shift p dx dy i =
     nat ((int i mod nx p + dx) mod nx p + ((int i div nx p + dy) mod ny p) * nx p)"

subsection \<open>Sample grids\<close>

text \<open>A grid of two columns and three rows whose values name their channel and cell.\<close>
definition demo_param :: t_param where
  "demo_param = \<lparr>nx = 2, ny = 3, maxIters = 2, reynolds_dim = 1,
                  density = 1, accel = 0, omega = 1\<rparr>"

definition demo_cells :: t_speed where
  "demo_cells =
     [[0, 1, 2, 3, 4, 5], [10, 11, 12, 13, 14, 15], [20, 21, 22, 23, 24, 25],
      [30, 31, 32, 33, 34, 35], [40, 41, 42, 43, 44, 45], [50, 51, 52, 53, 54, 55],
      [60, 61, 62, 63, 64, 65], [70, 71, 72, 73, 74, 75], [80, 81, 82, 83, 84, 85]]"

text \<open>A grid of one column and two rows; its second cell holds ten times the first.\<close>
definition tiny_param :: t_param where
  "tiny_param = \<lparr>nx = 1, ny = 2, maxIters = 1, reynolds_dim = 1,
                  density = 36, accel = 0, omega = 1 / 2\<rparr>"

definition tiny_cells :: t_speed where
  "tiny_cells =
     [[16, 160], [4, 40], [4, 40], [4, 40], [4, 40], [1, 10], [1, 10], [1, 10], [1, 10]]"

definition tiny_tmp :: t_speed where
  "tiny_tmp = [[0, 0], [0, 0], [0, 0], [0, 0], [0, 0], [0, 0], [0, 0], [0, 0], [0, 0]]"

text \<open>
  A grid of two columns and two rows at rest, the sum of each cell being 36, and the
  same state on the grid of one column and two rows.
\<close>
definition square_param :: t_param where
  "square_param = \<lparr>nx = 2, ny = 2, maxIters = 2, reynolds_dim = 1,
                    density = 9, accel = 0, omega = 1\<rparr>"

definition square_cells :: t_speed where
  "square_cells =
     [[16, 16, 16, 16], [4, 4, 4, 4], [4, 4, 4, 4], [4, 4, 4, 4], [4, 4, 4, 4],
      [1, 1, 1, 1], [1, 1, 1, 1], [1, 1, 1, 1], [1, 1, 1, 1]]"

definition tiny_rest :: t_speed where
  "tiny_rest = [[16, 16], [4, 4], [4, 4], [4, 4], [4, 4], [1, 1], [1, 1], [1, 1], [1, 1]]"

text \<open>
  A state of the grid of one column and two rows whose values are not negative and whose
  first cell gathers nine zeros.
\<close>
definition void_cells :: t_speed where
  "void_cells = [[0, 5], [0, 1], [1, 0], [0, 1], [1, 0], [1, 0], [1, 0], [1, 0], [1, 0]]"


section \<open>Memory access, indices and loops\<close>

lemma rd_speed_Some:
  "k < length cells \<Longrightarrow> 0 \<le> i \<Longrightarrow> i < int (length (cells ! k))
   \<Longrightarrow> rd_speed cells k i = Some (cells ! k ! nat i)"
  by (simp add: rd_speed_def rd_def)

lemma wr_speed_Some:
  "k < length t \<Longrightarrow> 0 \<le> i \<Longrightarrow> i < int (length (t ! k))
   \<Longrightarrow> wr_speed t k i v = Some (t[k := (t ! k)[nat i := v]])"
  by (simp add: wr_speed_def wr_def)

lemma wf_speed_length: "wf_speed p cells \<Longrightarrow> length cells = 9"
  by (simp add: wf_speed_def)

lemma wf_speed_channel:
  "wf_speed p cells \<Longrightarrow> k < 9 \<Longrightarrow> length (cells ! k) = nat (nx p * ny p)"
  by (simp add: wf_speed_def list_all_length)

lemma list9:
  assumes "length (t :: 'a list) = 9"
  obtains t0 t1 t2 t3 t4 t5 t6 t7 t8 where "t = [t0, t1, t2, t3, t4, t5, t6, t7, t8]"
  using assms by (auto simp add: eval_nat_numeral length_Suc_conv)

lemma speed_ext:
  assumes "wf_speed p a" "wf_speed p b"
    and "\<And>k i. k < 9 \<Longrightarrow> i < nat (nx p * ny p) \<Longrightarrow> a ! k ! i = b ! k ! i"
  shows "a = b"
proof (rule nth_equalityI)
  show "length a = length b" using assms by (simp add: wf_speed_def)
next
  fix k assume "k < length a"
  then have k: "k < 9" using assms(1) by (simp add: wf_speed_def)
  show "a ! k = b ! k"
  proof (rule nth_equalityI)
    show "length (a ! k) = length (b ! k)"
      using assms(1,2) k by (simp add: wf_speed_channel)
  next
    fix i assume "i < length (a ! k)"
    then show "a ! k ! i = b ! k ! i"
      using assms k by (simp add: wf_speed_channel)
  qed
qed

lemma cell_index_bounds:
  fixes a b n m :: int
  assumes "0 \<le> a" "a < n" "0 \<le> b" "b < m"
  shows "0 \<le> a + b * n" and "a + b * n < n * m"
proof -
  show "0 \<le> a + b * n" using assms by simp
  have "b + 1 \<le> m" using assms by simp
  then have "(b + 1) * n \<le> m * n" using assms by (intro mult_right_mono) auto
  then show "a + b * n < n * m" using assms by (simp add: algebra_simps)
qed

lemma linear_index:
  fixes a b n :: int
  assumes "0 \<le> a" "a < n" "0 \<le> b"
  shows "int (nat (a + b * n)) div n = b" "int (nat (a + b * n)) mod n = a"
proof -
  have "0 \<le> a + b * n" using assms by simp
  then have "int (nat (a + b * n)) = a + b * n" by simp
  then show "int (nat (a + b * n)) div n = b" "int (nat (a + b * n)) mod n = a"
    using assms by simp_all
qed

lemma index_div_less:
  fixes i n m :: int
  assumes "0 < n" "i < n * m"
  shows "i div n < m"
proof (rule ccontr)
  assume "\<not> i div n < m"
  then have "m \<le> i div n" by simp
  then have "n * m \<le> n * (i div n)" using assms(1) by (simp add: mult_left_mono)
  moreover have "n * (i div n) \<le> i"
    using mult_div_mod_eq [of n i] pos_mod_sign [OF assms(1), of i] by linarith
  ultimately show False using assms(2) by linarith
qed

lemma index_cell:
  fixes n m :: int
  assumes "0 < n" "i < nat (n * m)"
  shows "0 \<le> int i mod n" "int i mod n < n" "0 \<le> int i div n" "int i div n < m"
proof -
  show "0 \<le> int i mod n" "int i mod n < n" using assms(1) by simp_all
  show "0 \<le> int i div n" using assms(1) by (simp add: pos_imp_zdiv_nonneg_iff)
  have "int i < n * m" using assms(2) by simp
  then show "int i div n < m" using assms(1) by (intro index_div_less) simp_all
qed

lemma row_index:
  fixes a b n :: int
  assumes "0 \<le> a" "a < n" "0 \<le> b" "0 \<le> r"
  shows "(nat (r * n) \<le> nat (a + b * n) \<and> nat (a + b * n) < nat (r * n) + nat n) = (b = r)"
proof -
  have n: "0 < n" using assms by simp
  have "(r * n \<le> a + b * n \<and> a + b * n < r * n + n) = (b = r)"
  proof
    assume h: "r * n \<le> a + b * n \<and> a + b * n < r * n + n"
    have "r * n < (b + 1) * n" using h assms by (simp add: algebra_simps)
    then have 1: "r < b + 1" using n by (simp add: mult_less_cancel_right)
    have "b * n < (r + 1) * n" using h assms by (simp add: algebra_simps)
    then have 2: "b < r + 1" using n by (simp add: mult_less_cancel_right)
    from 1 2 show "b = r" by simp
  next
    assume "b = r" then show "r * n \<le> a + b * n \<and> a + b * n < r * n + n"
      using assms by simp
  qed
  moreover have "0 \<le> r * n" "0 \<le> a + b * n" using assms by simp_all
  ultimately show ?thesis using n by (simp add: nat_le_eq_zle nat_less_iff nat_add_distrib)
qed

lemma rd_speed_cell:
  assumes "wf_speed p cells" "k < 9" "0 \<le> a" "a < nx p" "0 \<le> b" "b < ny p"
  shows "rd_speed cells k (a + b * nx p) = Some (cells ! k ! nat (a + b * nx p))"
proof -
  have "a + b * nx p < nx p * ny p" "0 \<le> a + b * nx p"
    using cell_index_bounds [of a "nx p" b "ny p"] assms by auto
  then show ?thesis
    using assms by (simp add: rd_speed_Some wf_speed_length wf_speed_channel)
qed

lemma store_cell_Some:
  assumes "wf_speed p t" "0 \<le> idx" "idx < nx p * ny p" "length vs = 9"
  shows "store_cell t idx vs = Some (put_cell t (nat idx) vs)"
proof -
  obtain t0 t1 t2 t3 t4 t5 t6 t7 t8 where t: "t = [t0, t1, t2, t3, t4, t5, t6, t7, t8]"
    using assms(1) by (auto simp: wf_speed_def elim: list9)
  obtain v0 v1 v2 v3 v4 v5 v6 v7 v8 where v: "vs = [v0, v1, v2, v3, v4, v5, v6, v7, v8]"
    using assms(4) by (auto elim: list9)
  have len: "idx < int (length t0)" "idx < int (length t1)" "idx < int (length t2)"
    "idx < int (length t3)" "idx < int (length t4)" "idx < int (length t5)"
    "idx < int (length t6)" "idx < int (length t7)" "idx < int (length t8)"
    using assms(1-3) by (simp_all add: wf_speed_def t)
  show ?thesis
    unfolding store_cell_def t v put_cell_def
    using len assms(2) by (simp add: wr_speed_def wr_def)
qed

lemma put_cell_wf:
  assumes "wf_speed p t" "length vs = 9"
  shows "wf_speed p (put_cell t i vs)"
  using assms by (auto simp add: wf_speed_def put_cell_def list_all_length)

lemma put_cell_nth:
  assumes "wf_speed p t" "length vs = 9" "k < 9" "i < nat (nx p * ny p)"
  shows "put_cell t i vs ! k ! j = (if j = i then vs ! k else t ! k ! j)"
  using assms by (auto simp add: wf_speed_def put_cell_def list_all_length)

lemma for_loop_total:
  assumes "I i s" and "i \<le> n"
    and "\<And>j t. i \<le> j \<Longrightarrow> j < n \<Longrightarrow> I j t \<Longrightarrow> \<exists>t'. body j t = Some t' \<and> I (j + 1) t'"
  shows "\<exists>t. for_loop i n body s = Some t \<and> I n t"
  using assms
proof (induction i n body s rule: for_loop.induct)
  case (1 i n body s)
  show ?case
  proof (cases "i < n")
    case False
    with "1.prems" have "i = n" by simp
    with "1.prems" show ?thesis by (simp add: for_loop.simps)
  next
    case True
    with "1.prems" obtain s' where s': "body i s = Some s'" "I (i + 1) s'"
      by (metis order_refl)
    have "\<exists>t. for_loop (i + 1) n body s' = Some t \<and> I n t"
    proof (rule "1.IH" [OF True s'(1) s'(2)])
      show "i + 1 \<le> n" using True by simp
    next
      fix j t assume "i + 1 \<le> j" "j < n" "I j t"
      then show "\<exists>t'. body j t = Some t' \<and> I (j + 1) t'"
        using "1.prems"(3) [of j t] by simp
    qed
    then show ?thesis using True s' by (simp add: for_loop.simps [of i])
  qed
qed

lemma for_loop_partial:
  assumes "for_loop i n body s = Some r" and "I i s" and "i \<le> n"
    and "\<And>j t t'. i \<le> j \<Longrightarrow> j < n \<Longrightarrow> I j t \<Longrightarrow> body j t = Some t' \<Longrightarrow> I (j + 1) t'"
  shows "I n r"
  using assms
proof (induction i n body s rule: for_loop.induct)
  case (1 i n body s)
  show ?case
  proof (cases "i < n")
    case False
    with "1.prems" have "i = n" by simp
    with "1.prems" show ?thesis by (simp add: for_loop.simps)
  next
    case True
    with "1.prems"(1) obtain s' where s': "body i s = Some s'"
      and rest: "for_loop (i + 1) n body s' = Some r"
      by (simp add: for_loop.simps [of i] split: option.splits)
    have I': "I (i + 1) s'"
      using "1.prems"(4) [of i s s'] True "1.prems"(2) s' by simp
    show ?thesis
    proof (rule "1.IH" [OF True s' rest I'])
      show "i + 1 \<le> n" using True by simp
    next
      fix j t t' assume "i + 1 \<le> j" "j < n" "I j t" "body j t = Some t'"
      then show "I (j + 1) t'"
        using "1.prems"(4) [of j t t'] by simp
    qed
  qed
qed

section \<open>The sample grids\<close>

lemmas propagate_eval =
  propagate_def for_loop.simps propagate_cell_def gather_def rd_speed_def rd_def
  store_cell_def wr_speed_def wr_def local_density_of_def x_momentum_def y_momentum_def
  rebound_values_def relax_values_def d_equ_def float_div_def Let_def

lemmas accelerate_eval =
  accelerate_flow_def for_loop.simps accelerate_cell_def rd_speed_def rd_def
  wr_speed_def wr_def Let_def

lemmas timestep_eval =
  timestep_def accelerate_eval propagate_eval

lemmas write_values_eval =
  write_values_def write_cell_def for_loop.simps rd_speed_def rd_def float_div_def
  NSPEEDS_def Let_def

lemma demo_grid_ok: "grid_ok demo_param"
  by (simp add: grid_ok_def demo_param_def)

lemma demo_cells_wf: "wf_speed demo_param demo_cells"
  by (simp add: wf_speed_def demo_param_def demo_cells_def)

lemma tiny_ok:
  "grid_ok tiny_param" "wf_speed tiny_param tiny_cells" "wf_speed tiny_param tiny_tmp"
  "wf_obstacles tiny_param [a, b]"
  by (simp_all add: grid_ok_def wf_speed_def wf_obstacles_def
      tiny_param_def tiny_cells_def tiny_tmp_def)

lemma tiny_propagate:
  "propagate tiny_param tiny_cells tiny_tmp [1, 0] =
     Some ([[16, 136], [4, 34], [40, 16], [4, 34], [40, 16], [10, 4], [10, 4], [10, 4], [10, 4]],
           Num 0)"
  by (simp add: propagate_eval tiny_param_def tiny_cells_def tiny_tmp_def)

text \<open>The values of some runs on the grid of one column and two rows.\<close>
lemma tiny_all_obstacles:
  "propagate tiny_param tiny_cells tiny_tmp [1, 1] =
     Some ([[16, 160], [4, 40], [40, 4], [4, 40], [40, 4], [10, 1], [10, 1], [10, 1], [10, 1]],
           NaN)"
  by (simp add: propagate_eval tiny_param_def tiny_cells_def tiny_tmp_def)

lemma tiny_accelerate:
  "accelerate_flow (tiny_param\<lparr>accel := 1 / 2\<rparr>) tiny_cells [0, 0] =
     Some [[16, 160], [6, 40], [4, 40], [2, 40], [4, 40],
           [3 / 2, 10], [1 / 2, 10], [1 / 2, 10], [3 / 2, 10]]"
  by (simp add: accelerate_eval tiny_param_def tiny_cells_def)

lemma tiny_rest_timestep:
  "timestep tiny_param tiny_rest tiny_tmp [0, 0] = Some (tiny_rest, tiny_rest, Num 0)"
  "timestep tiny_param tiny_rest tiny_rest [0, 0] = Some (tiny_rest, tiny_rest, Num 0)"
  by (simp_all add: timestep_eval tiny_param_def tiny_rest_def tiny_tmp_def)

section \<open>Streaming\<close>

lemma wrap_pred:
  fixes a n :: int
  assumes "0 \<le> a" "a < n"
  shows "(if a = 0 then a + n - 1 else a - 1) = (a - 1) mod n"
proof (cases "a = 0")
  case True
  have "(- 1) mod n = n - 1" using assms by (simp add: zmod_minus1)
  with True show ?thesis by simp
next
  case False
  then have "(a - 1) mod n = a - 1" using assms by simp
  with False show ?thesis by simp
qed

lemma gather_Some:
  assumes ok: "grid_ok p" and wf: "wf_speed p cells"
    and jj: "0 \<le> jj" "jj < ny p" and ii: "0 \<le> ii" "ii < nx p"
  shows "gather p cells jj ii =
     Some [cells ! 0 ! nat (ii + jj * nx p),
           cells ! 1 ! nat ((ii - 1) mod nx p + jj * nx p),
           cells ! 2 ! nat (ii + ((jj - 1) mod ny p) * nx p),
           cells ! 3 ! nat ((ii + 1) mod nx p + jj * nx p),
           cells ! 4 ! nat (ii + ((jj + 1) mod ny p) * nx p),
           cells ! 5 ! nat ((ii - 1) mod nx p + ((jj - 1) mod ny p) * nx p),
           cells ! 6 ! nat ((ii + 1) mod nx p + ((jj - 1) mod ny p) * nx p),
           cells ! 7 ! nat ((ii + 1) mod nx p + ((jj + 1) mod ny p) * nx p),
           cells ! 8 ! nat ((ii - 1) mod nx p + ((jj + 1) mod ny p) * nx p)]"
proof -
  have xw: "(if ii = 0 then ii + nx p - 1 else ii - 1) = (ii - 1) mod nx p"
    using wrap_pred [OF ii] .
  have ys: "(if jj = 0 then jj + ny p - 1 else jj - 1) = (jj - 1) mod ny p"
    using wrap_pred [OF jj] .
  have bnd_x: "0 \<le> (ii - 1) mod nx p" "(ii - 1) mod nx p < nx p"
    "0 \<le> (ii + 1) mod nx p" "(ii + 1) mod nx p < nx p"
    using ii by auto
  have bnd_y: "0 \<le> (jj - 1) mod ny p" "(jj - 1) mod ny p < ny p"
    "0 \<le> (jj + 1) mod ny p" "(jj + 1) mod ny p < ny p"
    using jj by auto
  show ?thesis
    unfolding gather_def Let_def xw ys
    by (simp add: rd_speed_cell [OF wf] ii jj bnd_x bnd_y)
qed

lemma gather_upstream:
  assumes "grid_ok p" "wf_speed p cells" "0 \<le> jj" "jj < ny p" "0 \<le> ii" "ii < nx p"
  shows "gather p cells jj ii = Some (upstream p cells jj ii)"
  using gather_Some [OF assms] by (simp add: upstream_def)

lemma length_upstream [simp]: "length (upstream p cells jj ii) = 9"
  by (simp add: upstream_def)

text \<open>
  C1. For a grid with \<open>nx, ny > 0\<close>, a cell \<open>(jj, ii)\<close> of it and a channel \<open>k\<close> in 0..8,
  the streaming phase of \<open>propagate\<close> reads channel \<open>k\<close> of the current buffer at the
  cell displaced by minus \<open>velocity k\<close>, both coordinates wrapped modulo \<open>(nx, ny)\<close>.
  Channel 1 (east) is read one column to the west, with wraparound; channel 0 is read
  from the cell itself.
\<close>
theorem gather_reads_upstream:
  assumes "grid_ok p" and "wf_speed p cells"
    and "0 \<le> jj" "jj < ny p" and "0 \<le> ii" "ii < nx p" and "k < 9"
  shows "\<exists>s. gather p cells jj ii = Some s \<and> length s = 9
           \<and> s ! k = cells ! k ! nat ((ii - fst (velocity k)) mod nx p
                                     + ((jj - snd (velocity k)) mod ny p) * nx p)
           \<and> s ! 1 = cells ! 1 ! nat ((ii - 1) mod nx p + jj * nx p)
           \<and> s ! 0 = cells ! 0 ! nat (ii + jj * nx p)"
proof -
  have k: "k = 0 \<or> k = 1 \<or> k = 2 \<or> k = 3 \<or> k = 4 \<or> k = 5 \<or> k = 6 \<or> k = 7 \<or> k = 8"
    using \<open>k < 9\<close> by arith
  have id: "ii mod nx p = ii" "jj mod ny p = jj"
    using assms by auto
  note g = gather_Some [OF assms(1-6)]
  from k show ?thesis
    by (elim disjE) (simp_all add: g velocity_def id)
qed

theorem gather_reads_upstream_witness:
  "grid_ok demo_param \<and> wf_speed demo_param demo_cells
   \<and> (\<exists>s. gather demo_param demo_cells 0 0 = Some s \<and> s ! 5 = 55 \<and> s ! 1 = 11 \<and> s ! 0 = 0)"
  using gather_reads_upstream [OF demo_grid_ok demo_cells_wf, of 0 0 5]
  by (simp add: demo_grid_ok demo_cells_wf)
     (auto simp add: demo_param_def demo_cells_def velocity_def)

text \<open>
  C8, as the code has it. For a grid with \<open>ny = 3\<close> and \<open>nx > 0\<close>, the value gathered
  into channel 4 (south) of a cell of row 0 comes from the same column of row 1, the
  northern neighbour; it is channel 2 (north) whose value comes from the same column of
  row \<open>ny - 1\<close>, the periodic wraparound of row -1.
\<close>
theorem gather_row0_south_north:
  assumes "grid_ok p" and "ny p = 3" and "wf_speed p cells" and "0 \<le> ii" "ii < nx p"
  shows "\<exists>s. gather p cells 0 ii = Some s
           \<and> s ! 4 = cells ! 4 ! cell_index p 1 ii
           \<and> s ! 2 = cells ! 2 ! cell_index p (ny p - 1) ii"
proof -
  have "gather p cells 0 ii = Some (upstream p cells 0 ii)"
    using gather_upstream [OF assms(1,3) _ _ assms(4,5)] assms(2) by simp
  then show ?thesis
    using assms(2) by (simp add: upstream_def cell_index_def)
qed

theorem gather_row0_south_north_witness:
  "grid_ok demo_param \<and> ny demo_param = 3 \<and> wf_speed demo_param demo_cells
   \<and> (\<exists>s. gather demo_param demo_cells 0 1 = Some s \<and> s ! 4 = 43 \<and> s ! 2 = 25)"
  using gather_row0_south_north [OF demo_grid_ok _ demo_cells_wf, of 1]
  by (simp add: demo_grid_ok demo_cells_wf)
     (auto simp add: demo_param_def demo_cells_def cell_index_def)

text \<open>
  On the sample grid of three rows, channel 4 of the cell of row 0 and column 0 receives
  42, the value of row 1, while row \<open>ny - 1\<close> holds 44.
\<close>
theorem gather_row0_south_counterexample:
  "gather demo_param demo_cells 0 0 = Some [0, 11, 24, 31, 42, 55, 65, 73, 83]
   \<and> demo_cells ! 4 ! cell_index demo_param (ny demo_param - 1) 0 = 44"
  by (simp add: gather_def rd_speed_def rd_def cell_index_def demo_param_def demo_cells_def)

section \<open>The pass of \<^verbatim>\<open>propagate\<close> over the grid\<close>

lemma length_new_values [simp]: "length s = 9 \<Longrightarrow> length (new_values p s ob) = 9"
  by (simp add: new_values_def rebound_values_def relax_values_def)

lemma propagate_cell_eq:
  assumes ok: "grid_ok p" and wf: "wf_speed p cells" "wf_speed p t" "wf_obstacles p obstacles"
    and rng: "0 \<le> jj" "jj < ny p" "0 \<le> ii" "ii < nx p"
  shows "propagate_cell p cells obstacles jj ii (t, u, c) =
     (let s = upstream p cells jj ii; ob = obstacles ! nat (ii + jj * nx p)
      in if cell_defined s ob
         then Some (put_cell t (nat (ii + jj * nx p)) (new_values p s ob),
                    u + (if ob \<noteq> 0 then 0 else speed_of s),
                    c + (if ob \<noteq> 0 then 0 else 1))
         else None)"
proof -
  have idx: "0 \<le> ii + jj * nx p" "ii + jj * nx p < nx p * ny p"
    using cell_index_bounds [OF rng(3,4) rng(1,2)] by auto
  have ob: "rd obstacles (ii + jj * nx p) = Some (obstacles ! nat (ii + jj * nx p))"
    using idx wf(3) by (simp add: rd_def wf_obstacles_def)
  have st: "\<And>vs. length vs = 9 \<Longrightarrow>
      store_cell t (ii + jj * nx p) vs = Some (put_cell t (nat (ii + jj * nx p)) vs)"
    using store_cell_Some [OF wf(2) idx] by simp
  have l1: "length (rebound_values (upstream p cells jj ii)) = 9"
    by (simp add: rebound_values_def)
  have l2: "\<And>d. length (relax_values (omega p) (upstream p cells jj ii) d) = 9"
    by (simp add: relax_values_def)
  show ?thesis
    unfolding propagate_cell_def
    by (simp add: gather_upstream [OF ok wf(1) rng] ob st l1 l2 Let_def float_div_def
        cell_defined_def new_values_def speed_of_def)
qed

lemma propagated_step:
  assumes ok: "grid_ok p" and wf: "wf_speed p cells" "wf_obstacles p obstacles"
    and rng: "0 \<le> jj" "jj < ny p" "0 \<le> ii" "ii < nx p"
    and inv: "propagated p cells obstacles (nat (ii + jj * nx p)) st"
    and step: "propagate_cell p cells obstacles jj ii st = Some st'"
  shows "propagated p cells obstacles (nat (ii + 1 + jj * nx p)) st'"
proof -
  obtain t u c where st: "st = (t, u, c)" by (cases st)
  define m where "m = nat (ii + jj * nx p)"
  have idx: "0 \<le> ii + jj * nx p" "ii + jj * nx p < nx p * ny p"
    using cell_index_bounds [OF rng(3,4) rng(1,2)] by auto
  have m': "nat (ii + 1 + jj * nx p) = Suc m"
    using idx by (simp add: m_def nat_add_distrib)
  have mlt: "m < nat (nx p * ny p)" using idx by (simp add: m_def)
  have up: "upstream_at p cells m = upstream p cells jj ii"
    using linear_index [OF rng(3,4) rng(1)] by (simp add: upstream_at_def m_def)
  have wft: "wf_speed p t" using inv by (simp add: propagated_def st)
  let ?s = "upstream p cells jj ii"
  let ?ob = "obstacles ! m"
  note eq = propagate_cell_eq [OF ok wf(1) wft wf(2) rng, of u c, folded m_def]
  from step have def: "cell_defined ?s ?ob"
    and st': "st' = (put_cell t m (new_values p ?s ?ob),
                     u + (if ?ob \<noteq> 0 then 0 else speed_of ?s),
                     c + (if ?ob \<noteq> 0 then 0 else 1))"
    unfolding st eq by (simp_all add: Let_def split: if_splits)
  have nth: "\<And>k j. k < 9 \<Longrightarrow> put_cell t m (new_values p ?s ?ob) ! k ! j
      = (if j = m then new_values p ?s ?ob ! k else t ! k ! j)"
    using put_cell_nth [OF wft _ _ mlt] by simp
  show ?thesis
    unfolding m' st' propagated_def
    using inv [folded m_def] def
    by (auto simp add: st propagated_def put_cell_wf nth up less_Suc_eq
        tot_u_of_def tot_cells_of_def)
qed

lemma propagated_start:
  "wf_speed p t \<Longrightarrow> propagated p cells obstacles 0 (t, 0, 0)"
  by (simp add: propagated_def tot_u_of_def tot_cells_of_def)

lemma propagate_row_partial:
  assumes ok: "grid_ok p" and wf: "wf_speed p cells" "wf_obstacles p obstacles"
    and rng: "0 \<le> jj" "jj < ny p"
    and inv: "propagated p cells obstacles (nat (jj * nx p)) st"
    and run: "for_loop 0 (nx p) (propagate_cell p cells obstacles jj) st = Some st'"
  shows "propagated p cells obstacles (nat ((jj + 1) * nx p)) st'"
proof -
  have "propagated p cells obstacles (nat (nx p + jj * nx p)) st'"
  proof (rule for_loop_partial [OF run, where I = "\<lambda>ii. propagated p cells obstacles (nat (ii + jj * nx p))"])
    show "propagated p cells obstacles (nat (0 + jj * nx p)) st" using inv by simp
    show "0 \<le> nx p" using ok by (simp add: grid_ok_def)
  next
    fix j t t'
    assume "0 \<le> j" "j < nx p" "propagated p cells obstacles (nat (j + jj * nx p)) t"
      "propagate_cell p cells obstacles jj j t = Some t'"
    then show "propagated p cells obstacles (nat (j + 1 + jj * nx p)) t'"
      using propagated_step [OF ok wf rng] by blast
  qed
  then show ?thesis by (simp add: algebra_simps)
qed

lemma propagate_loops_partial:
  assumes ok: "grid_ok p" and wf: "wf_speed p cells" "wf_speed p tmp_cells" "wf_obstacles p obstacles"
    and run: "for_loop 0 (ny p) (\<lambda>jj. for_loop 0 (nx p) (propagate_cell p cells obstacles jj))
                (tmp_cells, 0, 0) = Some st'"
  shows "propagated p cells obstacles (nat (nx p * ny p)) st'"
proof -
  have "propagated p cells obstacles (nat (ny p * nx p)) st'"
  proof (rule for_loop_partial [OF run, where I = "\<lambda>jj. propagated p cells obstacles (nat (jj * nx p))"])
    show "propagated p cells obstacles (nat (0 * nx p)) (tmp_cells, 0, 0)"
      using propagated_start [OF wf(2)] by simp
    show "0 \<le> ny p" using ok by (simp add: grid_ok_def)
  next
    fix j t t'
    assume "0 \<le> j" "j < ny p" "propagated p cells obstacles (nat (j * nx p)) t"
      "for_loop 0 (nx p) (propagate_cell p cells obstacles j) t = Some t'"
    then show "propagated p cells obstacles (nat ((j + 1) * nx p)) t'"
      using propagate_row_partial [OF ok wf(1,3)] by blast
  qed
  then show ?thesis by (simp add: mult.commute)
qed

lemma propagate_post:
  assumes ok: "grid_ok p" and wf: "wf_speed p cells" "wf_speed p tmp_cells" "wf_obstacles p obstacles"
    and run: "propagate p cells tmp_cells obstacles = Some (out, av)"
  shows "propagated p cells obstacles (nat (nx p * ny p))
           (out, tot_u_of p cells obstacles (nat (nx p * ny p)),
            tot_cells_of obstacles (nat (nx p * ny p)))"
    and "av = float_div (tot_u_of p cells obstacles (nat (nx p * ny p)))
                (real_of_int (tot_cells_of obstacles (nat (nx p * ny p))))"
proof -
  from run obtain u c where
    loops: "for_loop 0 (ny p) (\<lambda>jj. for_loop 0 (nx p) (propagate_cell p cells obstacles jj))
              (tmp_cells, 0, 0) = Some (out, u, c)"
    and av: "av = float_div u (real_of_int c)"
    by (auto simp add: propagate_def split: bind_splits)
  note post = propagate_loops_partial [OF ok wf loops]
  then have uc: "u = tot_u_of p cells obstacles (nat (nx p * ny p))"
    "c = tot_cells_of obstacles (nat (nx p * ny p))"
    by (simp_all add: propagated_def)
  show "propagated p cells obstacles (nat (nx p * ny p))
           (out, tot_u_of p cells obstacles (nat (nx p * ny p)),
            tot_cells_of obstacles (nat (nx p * ny p)))"
    using post uc by simp
  show "av = float_div (tot_u_of p cells obstacles (nat (nx p * ny p)))
                (real_of_int (tot_cells_of obstacles (nat (nx p * ny p))))"
    using av uc by simp
qed

lemma propagate_cell_defined:
  assumes ok: "grid_ok p" and wf: "wf_speed p cells" "wf_obstacles p obstacles"
    and rng: "0 \<le> jj" "jj < ny p" "0 \<le> ii" "ii < nx p"
    and inv: "propagated p cells obstacles (nat (ii + jj * nx p)) st"
    and def: "cell_defined (upstream p cells jj ii) (obstacles ! nat (ii + jj * nx p))"
  shows "\<exists>st'. propagate_cell p cells obstacles jj ii st = Some st'
           \<and> propagated p cells obstacles (nat (ii + 1 + jj * nx p)) st'"
proof -
  obtain t u c where st: "st = (t, u, c)" by (cases st)
  have wft: "wf_speed p t" using inv by (simp add: propagated_def st)
  have "\<exists>st'. propagate_cell p cells obstacles jj ii st = Some st'"
    unfolding st propagate_cell_eq [OF ok wf(1) wft wf(2) rng] using def by (simp add: Let_def)
  then show ?thesis
    using propagated_step [OF ok wf rng inv] by blast
qed

lemma propagate_total:
  assumes ok: "grid_ok p" and wf: "wf_speed p cells" "wf_speed p tmp_cells" "wf_obstacles p obstacles"
    and def: "\<And>i. i < nat (nx p * ny p) \<Longrightarrow> cell_defined (upstream_at p cells i) (obstacles ! i)"
  shows "\<exists>out av. propagate p cells tmp_cells obstacles = Some (out, av)"
proof -
  have row: "\<exists>t'. for_loop 0 (nx p) (propagate_cell p cells obstacles jj) t = Some t'
               \<and> propagated p cells obstacles (nat ((jj + 1) * nx p)) t'"
    if jj: "0 \<le> jj" "jj < ny p" and inv: "propagated p cells obstacles (nat (jj * nx p)) t"
    for jj t
  proof -
    have "\<exists>t'. for_loop 0 (nx p) (propagate_cell p cells obstacles jj) t = Some t'
               \<and> propagated p cells obstacles (nat (nx p + jj * nx p)) t'"
    proof (rule for_loop_total [where I = "\<lambda>ii. propagated p cells obstacles (nat (ii + jj * nx p))"])
      show "propagated p cells obstacles (nat (0 + jj * nx p)) t" using inv by simp
      show "0 \<le> nx p" using ok by (simp add: grid_ok_def)
    next
      fix j s
      assume j: "0 \<le> j" "j < nx p" and s: "propagated p cells obstacles (nat (j + jj * nx p)) s"
      have "nat (j + jj * nx p) < nat (nx p * ny p)"
        using cell_index_bounds [OF j jj] by simp
      from def [OF this] have "cell_defined (upstream p cells jj j) (obstacles ! nat (j + jj * nx p))"
        using linear_index [OF j jj(1)] by (simp add: upstream_at_def)
      then show "\<exists>t'. propagate_cell p cells obstacles jj j s = Some t'
                   \<and> propagated p cells obstacles (nat (j + 1 + jj * nx p)) t'"
        using propagate_cell_defined [OF ok wf(1,3) jj j s] by simp
    qed
    then show ?thesis by (simp add: algebra_simps)
  qed
  have "\<exists>t'. for_loop 0 (ny p) (\<lambda>jj. for_loop 0 (nx p) (propagate_cell p cells obstacles jj))
                (tmp_cells, 0, 0) = Some t'
           \<and> propagated p cells obstacles (nat (ny p * nx p)) t'"
  proof (rule for_loop_total [where I = "\<lambda>jj. propagated p cells obstacles (nat (jj * nx p))"])
    show "propagated p cells obstacles (nat (0 * nx p)) (tmp_cells, 0, 0)"
      using propagated_start [OF wf(2)] by simp
    show "0 \<le> ny p" using ok by (simp add: grid_ok_def)
  next
    fix j s
    assume "0 \<le> j" "j < ny p" "propagated p cells obstacles (nat (j * nx p)) s"
    then show "\<exists>t'. for_loop 0 (nx p) (propagate_cell p cells obstacles j) s = Some t'
                 \<and> propagated p cells obstacles (nat ((j + 1) * nx p)) t'"
      using row by blast
  qed
  then obtain t' where "for_loop 0 (ny p) (\<lambda>jj. for_loop 0 (nx p) (propagate_cell p cells obstacles jj))
                (tmp_cells, 0, 0) = Some t'" by blast
  then show ?thesis by (cases t') (simp add: propagate_def)
qed

lemma propagate_cell_at:
  assumes ok: "grid_ok p" and wf: "wf_speed p cells" "wf_speed p tmp_cells" "wf_obstacles p obstacles"
    and rng: "0 \<le> jj" "jj < ny p" "0 \<le> ii" "ii < nx p"
    and run: "propagate p cells tmp_cells obstacles = Some (out, av)"
  shows "cell_defined (upstream p cells jj ii) (obstacles ! cell_index p jj ii)"
    and "k < 9 \<Longrightarrow> out ! k ! cell_index p jj ii
           = new_values p (upstream p cells jj ii) (obstacles ! cell_index p jj ii) ! k"
proof -
  have lt: "cell_index p jj ii < nat (nx p * ny p)"
    using cell_index_bounds [OF rng(3,4) rng(1,2)] by (simp add: cell_index_def)
  have up: "upstream_at p cells (cell_index p jj ii) = upstream p cells jj ii"
    using linear_index [OF rng(3,4) rng(1)] by (simp add: upstream_at_def cell_index_def)
  note post = propagate_post(1) [OF ok wf run, unfolded propagated_def, simplified]
  show "cell_defined (upstream p cells jj ii) (obstacles ! cell_index p jj ii)"
    using post lt up by auto
  show "k < 9 \<Longrightarrow> out ! k ! cell_index p jj ii
           = new_values p (upstream p cells jj ii) (obstacles ! cell_index p jj ii) ! k"
    using post lt up by auto
qed

lemma rebound_values_opposite:
  assumes "k < 9"
  shows "rebound_values s ! k = s ! opposite k"
proof -
  have k: "k = 0 \<or> k = 1 \<or> k = 2 \<or> k = 3 \<or> k = 4 \<or> k = 5 \<or> k = 6 \<or> k = 7 \<or> k = 8"
    using assms by arith
  from k show ?thesis
    by (elim disjE) (simp_all add: rebound_values_def opposite_def)
qed

lemma relax_values_eq_spec:
  assumes "k < 9"
  shows "relax_values om s (d_equ rho ux uy) ! k = s ! k + om * (eq_spec k rho ux uy - s ! k)"
proof -
  have k: "k = 0 \<or> k = 1 \<or> k = 2 \<or> k = 3 \<or> k = 4 \<or> k = 5 \<or> k = 6 \<or> k = 7 \<or> k = 8"
    using assms by arith
  from k show ?thesis
    by (elim disjE)
       (simp_all add: relax_values_def d_equ_def eq_spec_def weight_def u_dir_def velocity_def
          Let_def power2_eq_square)
qed

text \<open>
  C2. For a cell marked as an obstacle, every channel \<open>k\<close> of the next buffer holds the
  gathered value of the opposite direction, as the body of the loop stores it and as
  \<open>propagate\<close> returns it: no relaxation is applied. The body leaves both accumulators
  as they were, and the returned average is the quotient of two sums whose terms for
  obstacle cells are zero.
\<close>
theorem obstacle_cell_bounce_back:
  assumes "grid_ok p" and "wf_speed p cells" and "wf_speed p tmp_cells"
    and "wf_obstacles p obstacles"
    and "0 \<le> jj" "jj < ny p" and "0 \<le> ii" "ii < nx p"
    and "obstacles ! cell_index p jj ii \<noteq> 0"
    and "propagate p cells tmp_cells obstacles = Some (out, av)"
    and "k < 9"
  shows "\<exists>s t. gather p cells jj ii = Some s
           \<and> out ! k ! cell_index p jj ii = s ! opposite k
           \<and> propagate_cell p cells obstacles jj ii (tmp_cells, tot_u, tot_cells)
               = Some (t, tot_u, tot_cells)
           \<and> t ! k ! cell_index p jj ii = s ! opposite k
           \<and> av = float_div
                    (\<Sum>i<nat (nx p * ny p).
                        if obstacles ! i \<noteq> 0 then 0 else speed_of (upstream_at p cells i))
                    (real_of_int (\<Sum>i<nat (nx p * ny p). if obstacles ! i \<noteq> 0 then 0 else 1))"
proof -
  let ?s = "upstream p cells jj ii"
  let ?i = "cell_index p jj ii"
  have lt: "?i < nat (nx p * ny p)"
    using cell_index_bounds [OF assms(7,8) assms(5,6)] by (simp add: cell_index_def)
  have g: "gather p cells jj ii = Some ?s"
    using gather_upstream [OF assms(1,2,5-8)] .
  have nv: "new_values p ?s (obstacles ! ?i) ! k = ?s ! opposite k"
    using assms(9,11) by (simp add: new_values_def rebound_values_opposite)
  have out: "out ! k ! ?i = ?s ! opposite k"
    using propagate_cell_at(2) [OF assms(1-8,10) assms(11)] nv by simp
  have cell: "propagate_cell p cells obstacles jj ii (tmp_cells, tot_u, tot_cells)
      = Some (put_cell tmp_cells ?i (new_values p ?s (obstacles ! ?i)), tot_u, tot_cells)"
    using assms(9)
    by (simp add: propagate_cell_eq [OF assms(1-8)] cell_index_def cell_defined_def Let_def)
  have t: "put_cell tmp_cells ?i (new_values p ?s (obstacles ! ?i)) ! k ! ?i = ?s ! opposite k"
    using put_cell_nth [OF assms(3) _ assms(11) lt] nv by simp
  have av: "av = float_div
                    (\<Sum>i<nat (nx p * ny p).
                        if obstacles ! i \<noteq> 0 then 0 else speed_of (upstream_at p cells i))
                    (real_of_int (\<Sum>i<nat (nx p * ny p). if obstacles ! i \<noteq> 0 then 0 else 1))"
    using propagate_post(2) [OF assms(1-4,10)] by (simp add: tot_u_of_def tot_cells_of_def)
  show ?thesis using g out cell t av by blast
qed

theorem obstacle_cell_bounce_back_witness:
  "grid_ok tiny_param \<and> wf_speed tiny_param tiny_cells \<and> wf_speed tiny_param tiny_tmp
   \<and> wf_obstacles tiny_param [1, 0] \<and> [1, 0] ! cell_index tiny_param 0 0 \<noteq> (0 :: int)
   \<and> (\<exists>out. propagate tiny_param tiny_cells tiny_tmp [1, 0] = Some (out, Num 0)
        \<and> gather tiny_param tiny_cells 0 0 = Some [16, 4, 40, 4, 40, 10, 10, 10, 10]
        \<and> out ! 2 ! cell_index tiny_param 0 0 = 40
        \<and> (\<exists>t. propagate_cell tiny_param tiny_cells [1, 0] 0 0 (tiny_tmp, 7, 3) = Some (t, 7, 3)
              \<and> t ! 2 ! cell_index tiny_param 0 0 = 40))"
proof -
  have ob: "[1, 0] ! cell_index tiny_param 0 0 \<noteq> (0 :: int)"
    by (simp add: cell_index_def)
  have g: "gather tiny_param tiny_cells 0 0 = Some [16, 4, 40, 4, 40, 10, 10, 10, 10]"
    by (simp add: gather_def rd_speed_def rd_def tiny_param_def tiny_cells_def)
  have rng: "0 < ny tiny_param" "0 < nx tiny_param" "(2 :: nat) < 9"
    by (simp_all add: tiny_param_def)
  show ?thesis
    using obstacle_cell_bounce_back [OF tiny_ok(1-4) order_refl rng(1) order_refl rng(2) ob
        tiny_propagate rng(3), of 7 3]
    by (auto simp add: tiny_ok g ob tiny_propagate opposite_def)
qed

text \<open>
  C3. For a fluid cell, with \<open>s\<close> the nine gathered values, \<open>rho\<close> their sum,
  \<open>ux = (s1 + s5 + s8 - s3 - s6 - s7) / rho\<close> and \<open>uy = (s2 + s5 + s6 - s4 - s7 - s8) / rho\<close>,
  every channel \<open>k\<close> of the next buffer holds \<open>s k + omega * (eq k - s k)\<close>, where
  \<open>eq k\<close> is the equilibrium value of the specification; the body of the loop adds
  \<open>sqrt (ux\<^sup>2 + uy\<^sup>2)\<close> to the velocity sum and 1 to the count of fluid cells.
\<close>
theorem fluid_cell_relaxation:
  assumes "grid_ok p" and "wf_speed p cells" and "wf_speed p tmp_cells"
    and "wf_obstacles p obstacles"
    and "0 \<le> jj" "jj < ny p" and "0 \<le> ii" "ii < nx p"
    and "obstacles ! cell_index p jj ii = 0"
    and "propagate p cells tmp_cells obstacles = Some (out, av)"
    and "k < 9"
  shows "\<exists>s rho ux uy t. gather p cells jj ii = Some s
           \<and> rho = s ! 0 + s ! 1 + s ! 2 + s ! 3 + s ! 4 + s ! 5 + s ! 6 + s ! 7 + s ! 8
           \<and> rho \<noteq> 0
           \<and> ux = (s ! 1 + s ! 5 + s ! 8 - s ! 3 - s ! 6 - s ! 7) / rho
           \<and> uy = (s ! 2 + s ! 5 + s ! 6 - s ! 4 - s ! 7 - s ! 8) / rho
           \<and> out ! k ! cell_index p jj ii = s ! k + omega p * (eq_spec k rho ux uy - s ! k)
           \<and> propagate_cell p cells obstacles jj ii (tmp_cells, tot_u, tot_cells)
               = Some (t, tot_u + sqrt (ux\<^sup>2 + uy\<^sup>2), tot_cells + 1)
           \<and> t ! k ! cell_index p jj ii = s ! k + omega p * (eq_spec k rho ux uy - s ! k)"
proof -
  let ?s = "upstream p cells jj ii"
  let ?i = "cell_index p jj ii"
  let ?rho = "local_density_of ?s"
  let ?ux = "x_momentum ?s / ?rho"
  let ?uy = "y_momentum ?s / ?rho"
  have lt: "?i < nat (nx p * ny p)"
    using cell_index_bounds [OF assms(7,8) assms(5,6)] by (simp add: cell_index_def)
  have g: "gather p cells jj ii = Some ?s"
    using gather_upstream [OF assms(1,2,5-8)] .
  have rho: "?rho \<noteq> 0"
    using propagate_cell_at(1) [OF assms(1-8,10)] assms(9) by (simp add: cell_defined_def)
  have nv: "new_values p ?s (obstacles ! ?i) ! k
      = ?s ! k + omega p * (eq_spec k ?rho ?ux ?uy - ?s ! k)"
    using assms(9,11) by (simp add: new_values_def relax_values_eq_spec)
  have out: "out ! k ! ?i = ?s ! k + omega p * (eq_spec k ?rho ?ux ?uy - ?s ! k)"
    using propagate_cell_at(2) [OF assms(1-8,10) assms(11)] nv by simp
  have cell: "propagate_cell p cells obstacles jj ii (tmp_cells, tot_u, tot_cells)
      = Some (put_cell tmp_cells ?i (new_values p ?s (obstacles ! ?i)),
              tot_u + sqrt (?ux\<^sup>2 + ?uy\<^sup>2), tot_cells + 1)"
    using assms(9) rho
    by (simp add: propagate_cell_eq [OF assms(1-8)] cell_index_def cell_defined_def Let_def
        speed_of_def power2_eq_square)
  have t: "put_cell tmp_cells ?i (new_values p ?s (obstacles ! ?i)) ! k ! ?i
      = ?s ! k + omega p * (eq_spec k ?rho ?ux ?uy - ?s ! k)"
    using put_cell_nth [OF assms(3) _ assms(11) lt] nv by simp
  have defs: "?rho = ?s ! 0 + ?s ! 1 + ?s ! 2 + ?s ! 3 + ?s ! 4 + ?s ! 5 + ?s ! 6 + ?s ! 7 + ?s ! 8"
    "?ux = (?s ! 1 + ?s ! 5 + ?s ! 8 - ?s ! 3 - ?s ! 6 - ?s ! 7) / ?rho"
    "?uy = (?s ! 2 + ?s ! 5 + ?s ! 6 - ?s ! 4 - ?s ! 7 - ?s ! 8) / ?rho"
    by (simp_all only: local_density_of_def x_momentum_def y_momentum_def)
  show ?thesis
    using g rho out cell t defs by blast
qed

theorem fluid_cell_relaxation_witness:
  "grid_ok tiny_param \<and> wf_speed tiny_param tiny_cells \<and> wf_speed tiny_param tiny_tmp
   \<and> wf_obstacles tiny_param [1, 0] \<and> [1, 0] ! cell_index tiny_param 1 0 = (0 :: int)
   \<and> (\<exists>out. propagate tiny_param tiny_cells tiny_tmp [1, 0] = Some (out, Num 0)
        \<and> gather tiny_param tiny_cells 1 0 = Some [160, 40, 4, 40, 4, 1, 1, 1, 1]
        \<and> out ! 2 ! cell_index tiny_param 1 0
            = 4 + omega tiny_param * (eq_spec 2 252 0 0 - 4)
        \<and> (\<exists>t. propagate_cell tiny_param tiny_cells [1, 0] 1 0 (tiny_tmp, 7, 3)
                  = Some (t, 7 + sqrt (0\<^sup>2 + 0\<^sup>2), 3 + 1)
              \<and> t ! 2 ! cell_index tiny_param 1 0 = 16))"
proof -
  have ob: "[1, 0] ! cell_index tiny_param 1 0 = (0 :: int)"
    by (simp add: cell_index_def tiny_param_def)
  have g: "gather tiny_param tiny_cells 1 0 = Some [160, 40, 4, 40, 4, 1, 1, 1, 1]"
    by (simp add: gather_def rd_speed_def rd_def tiny_param_def tiny_cells_def)
  have rng: "(0 :: int) \<le> 1" "1 < ny tiny_param" "0 < nx tiny_param" "(2 :: nat) < 9"
    by (simp_all add: tiny_param_def)
  have e: "eq_spec 2 252 0 0 = 28"
    by (simp add: eq_spec_def weight_def u_dir_def)
  have om: "omega tiny_param = 1 / 2"
    by (simp add: tiny_param_def)
  show ?thesis
    using fluid_cell_relaxation [OF tiny_ok(1-4) rng(1,2) order_refl rng(3) ob
        tiny_propagate rng(4), of 7 3]
    by (auto simp add: tiny_ok g ob tiny_propagate e om)
qed

text \<open>
  C10. When every cell of the grid is an obstacle, \<open>propagate\<close> still returns: it fills
  the scratch grid, both accumulators stay zero, and the division of zero by zero that
  ends it gives the NaN of float division.
\<close>
theorem all_obstacles_average_nan:
  assumes "grid_ok p" and "wf_speed p cells" and "wf_speed p tmp_cells"
    and "wf_obstacles p obstacles"
    and "list_all (\<lambda>ob. ob \<noteq> 0) obstacles"
  shows "\<exists>out. propagate p cells tmp_cells obstacles = Some (out, NaN) \<and> wf_speed p out"
proof -
  have ob: "obstacles ! i \<noteq> 0" if "i < nat (nx p * ny p)" for i
    using assms(4,5) that by (simp add: wf_obstacles_def list_all_length)
  then have "\<exists>out av. propagate p cells tmp_cells obstacles = Some (out, av)"
    by (intro propagate_total [OF assms(1-4)]) (simp add: cell_defined_def)
  then obtain out av where run: "propagate p cells tmp_cells obstacles = Some (out, av)"
    by blast
  have "tot_u_of p cells obstacles (nat (nx p * ny p)) = 0"
    "tot_cells_of obstacles (nat (nx p * ny p)) = 0"
    using ob by (simp_all add: tot_u_of_def tot_cells_of_def)
  then have "av = NaN"
    using propagate_post(2) [OF assms(1-4) run] by (simp add: float_div_def)
  moreover have "wf_speed p out"
    using propagate_post(1) [OF assms(1-4) run] by (simp add: propagated_def)
  ultimately show ?thesis using run by simp
qed

theorem all_obstacles_average_nan_witness:
  "grid_ok tiny_param \<and> wf_speed tiny_param tiny_cells \<and> wf_speed tiny_param tiny_tmp
   \<and> wf_obstacles tiny_param [1, 1] \<and> list_all (\<lambda>ob. ob \<noteq> 0) [1, 1 :: int]
   \<and> (\<exists>out. propagate tiny_param tiny_cells tiny_tmp [1, 1] = Some (out, NaN)
          \<and> wf_speed tiny_param out)"
proof -
  have all: "list_all (\<lambda>ob. ob \<noteq> 0) [1, 1 :: int]" by simp
  show ?thesis
    using all all_obstacles_average_nan [OF tiny_ok(1-4) all] by (simp add: tiny_ok)
qed

section \<open>Boundary forcing\<close>

lemma accelerate_cell_eq:
  assumes wf: "wf_speed p c" "wf_obstacles p obstacles"
    and idx: "0 \<le> ii + (ny p - 2) * nx p" "ii + (ny p - 2) * nx p < nx p * ny p"
  shows "accelerate_cell p obstacles ii c =
     Some (if forcing_applies p c obstacles (nat (ii + (ny p - 2) * nx p))
           then put_cell c (nat (ii + (ny p - 2) * nx p))
                  (forced_values p c (nat (ii + (ny p - 2) * nx p)))
           else c)"
proof -
  obtain c0 c1 c2 c3 c4 c5 c6 c7 c8 where c: "c = [c0, c1, c2, c3, c4, c5, c6, c7, c8]"
    using wf(1) by (auto simp: wf_speed_def elim: list9)
  define i where "i = ii + (ny p - 2) * nx p"
  have len: "i < int (length c0)" "i < int (length c1)" "i < int (length c2)"
    "i < int (length c3)" "i < int (length c4)" "i < int (length c5)"
    "i < int (length c6)" "i < int (length c7)" "i < int (length c8)"
    "i < int (length obstacles)" "0 \<le> i"
    using wf idx by (simp_all add: wf_speed_def wf_obstacles_def c i_def)
  show ?thesis
    unfolding accelerate_cell_def Let_def i_def [symmetric] c
    using len
    by (simp add: rd_def rd_speed_def wr_speed_def wr_def forcing_applies_def put_cell_def
        forced_values_def forcing_delta_def)
qed

lemma forced_values_nth:
  "k < 9 \<Longrightarrow> forced_values p c i ! k = c ! k ! i + forcing_delta p k"
proof -
  assume "k < 9"
  then have "k = 0 \<or> k = 1 \<or> k = 2 \<or> k = 3 \<or> k = 4 \<or> k = 5 \<or> k = 6 \<or> k = 7 \<or> k = 8"
    by arith
  then show ?thesis
    by (elim disjE) (simp_all add: forced_values_def)
qed

lemma length_forced_values [simp]: "length (forced_values p c i) = 9"
  by (simp add: forced_values_def)

lemma accelerated_step:
  assumes ok: "grid_ok p" "2 \<le> ny p" and wf: "wf_obstacles p obstacles"
    and rng: "0 \<le> ii" "ii < nx p"
    and inv: "accelerated p cells obstacles (nat ii) c"
  shows "\<exists>c'. accelerate_cell p obstacles ii c = Some c'
           \<and> accelerated p cells obstacles (nat (ii + 1)) c'"
proof -
  define r where "r = nat ((ny p - 2) * nx p)"
  define m where "m = nat ii"
  have jj: "0 \<le> ny p - 2" "ny p - 2 < ny p" using ok by simp_all
  have idx: "0 \<le> ii + (ny p - 2) * nx p" "ii + (ny p - 2) * nx p < nx p * ny p"
    using cell_index_bounds [OF rng jj] by auto
  have nxpos: "0 \<le> (ny p - 2) * nx p" using jj ok by (simp add: grid_ok_def)
  have i: "nat (ii + (ny p - 2) * nx p) = r + m"
    using rng nxpos by (simp add: r_def m_def nat_add_distrib)
  have lt: "r + m < nat (nx p * ny p)" using idx i by simp
  have wfc: "wf_speed p c" using inv by (simp add: accelerated_def)
  have same: "c ! k ! (r + m) = cells ! k ! (r + m)" if "k < 9" for k
    using inv that lt by (simp add: accelerated_def r_def m_def)
  have app: "forcing_applies p c obstacles (r + m) = forcing_applies p cells obstacles (r + m)"
    by (simp add: forcing_applies_def same)
  have m': "nat (ii + 1) = Suc m" using rng by (simp add: m_def nat_add_distrib)
  note eq = accelerate_cell_eq [OF wfc wf idx, unfolded i app]
  show ?thesis
  proof (cases "forcing_applies p cells obstacles (r + m)")
    case False
    then have "accelerate_cell p obstacles ii c = Some c" using eq by simp
    moreover have "accelerated p cells obstacles (Suc m) c"
      using inv False
      by (auto simp add: accelerated_def r_def [symmetric] m_def [symmetric] less_Suc_eq)
    ultimately show ?thesis using m' by simp
  next
    case True
    let ?c' = "put_cell c (r + m) (forced_values p c (r + m))"
    have run: "accelerate_cell p obstacles ii c = Some ?c'" using eq True by simp
    have nth: "?c' ! k ! j = (if j = r + m then cells ! k ! j + forcing_delta p k else c ! k ! j)"
      if "k < 9" for k j
      using put_cell_nth [OF wfc _ that lt] that by (simp add: forced_values_nth same)
    have "accelerated p cells obstacles (Suc m) ?c'"
      using inv True
      by (auto simp add: accelerated_def r_def [symmetric] m_def [symmetric] less_Suc_eq
          nth put_cell_wf)
    then show ?thesis using run m' by simp
  qed
qed

lemma accelerate_flow_post:
  assumes ok: "grid_ok p" "2 \<le> ny p" and wf: "wf_speed p cells" "wf_obstacles p obstacles"
  shows "\<exists>c. accelerate_flow p cells obstacles = Some c
           \<and> accelerated p cells obstacles (nat (nx p)) c"
  unfolding accelerate_flow_def
proof (rule for_loop_total [where I = "\<lambda>ii. accelerated p cells obstacles (nat ii)"])
  show "accelerated p cells obstacles (nat 0) cells"
    using wf(1) by (simp add: accelerated_def)
  show "0 \<le> nx p" using ok by (simp add: grid_ok_def)
next
  fix j t
  assume "0 \<le> j" "j < nx p" "accelerated p cells obstacles (nat j) t"
  then show "\<exists>t'. accelerate_cell p obstacles j t = Some t'
               \<and> accelerated p cells obstacles (nat (j + 1)) t'"
    using accelerated_step [OF ok wf(2)] by blast
qed

lemma accelerate_flow_single_row:
  assumes ok: "grid_ok p" and ny: "ny p < 2"
  shows "accelerate_flow p cells obstacles = None"
proof -
  have pos: "0 < nx p" using ok by (simp add: grid_ok_def)
  have "(ny p - 2) * nx p < 0"
    using ny pos by (simp add: mult_less_0_iff)
  then have "accelerate_cell p obstacles 0 cells = None"
    by (simp add: accelerate_cell_def rd_def Let_def)
  then show ?thesis
    using pos by (simp add: accelerate_flow_def for_loop.simps [of 0])
qed

lemma forced_grid_wf: "wf_speed p (forced_grid p cells obstacles)"
  by (simp add: forced_grid_def wf_speed_def list_all_length)

lemma forced_grid_nth:
  assumes "k < 9" "i < nat (nx p * ny p)"
  shows "forced_grid p cells obstacles ! k ! i =
     (if nat ((ny p - 2) * nx p) \<le> i \<and> i < nat ((ny p - 2) * nx p) + nat (nx p)
         \<and> forcing_applies p cells obstacles i
      then cells ! k ! i + forcing_delta p k
      else cells ! k ! i)"
  using assms by (simp add: forced_grid_def)

lemma accelerate_flow_forced:
  assumes ok: "grid_ok p" "2 \<le> ny p" and wf: "wf_speed p cells" "wf_obstacles p obstacles"
  shows "accelerate_flow p cells obstacles = Some (forced_grid p cells obstacles)"
proof -
  obtain c where run: "accelerate_flow p cells obstacles = Some c"
    and post: "accelerated p cells obstacles (nat (nx p)) c"
    using accelerate_flow_post [OF ok wf] by blast
  have "c = forced_grid p cells obstacles"
  proof (rule speed_ext [of p])
    show "wf_speed p c" using post by (simp add: accelerated_def)
    show "wf_speed p (forced_grid p cells obstacles)" by (rule forced_grid_wf)
  next
    fix k i :: nat assume "k < 9" "i < nat (nx p * ny p)"
    then show "c ! k ! i = forced_grid p cells obstacles ! k ! i"
      using post by (simp add: accelerated_def forced_grid_nth)
  qed
  then show ?thesis using run by simp
qed

text \<open>
  C5, as the code has it. On a grid with at least two rows \<open>accelerate_flow\<close> returns,
  and it changes a cell only in row \<open>ny - 2\<close>, only where the obstacle flag is zero,
  and exactly when channel 3 minus \<open>w1\<close> and channels 6 and 7 minus \<open>w2\<close> are all
  strictly positive: then \<open>w1\<close> is added to channel 1 and taken from channel 3, \<open>w2\<close>
  is added to channels 5 and 8 and taken from channels 6 and 7. Every other cell and
  channel keeps its value.
\<close>
theorem accelerate_flow_effect:
  assumes "grid_ok p" and "2 \<le> ny p" and "wf_speed p cells" and "wf_obstacles p obstacles"
    and "0 \<le> jj" "jj < ny p" and "0 \<le> ii" "ii < nx p" and "k < 9"
  shows "\<exists>c. accelerate_flow p cells obstacles = Some c \<and> wf_speed p c
           \<and> c ! k ! cell_index p jj ii =
               (if jj = ny p - 2 \<and> obstacles ! cell_index p jj ii = 0
                   \<and> 0 < cells ! 3 ! cell_index p jj ii - density p * accel p / 9
                   \<and> 0 < cells ! 6 ! cell_index p jj ii - density p * accel p / 36
                   \<and> 0 < cells ! 7 ! cell_index p jj ii - density p * accel p / 36
                then cells ! k ! cell_index p jj ii
                       + [0, density p * accel p / 9, 0, - (density p * accel p / 9), 0,
                          density p * accel p / 36, - (density p * accel p / 36),
                          - (density p * accel p / 36), density p * accel p / 36] ! k
                else cells ! k ! cell_index p jj ii)"
proof -
  obtain c where run: "accelerate_flow p cells obstacles = Some c"
    and post: "accelerated p cells obstacles (nat (nx p)) c"
    using accelerate_flow_post [OF assms(1-4)] by blast
  have lt: "cell_index p jj ii < nat (nx p * ny p)"
    using cell_index_bounds [OF assms(7,8) assms(5,6)] by (simp add: cell_index_def)
  have row: "(nat ((ny p - 2) * nx p) \<le> cell_index p jj ii
      \<and> cell_index p jj ii < nat ((ny p - 2) * nx p) + nat (nx p)) = (jj = ny p - 2)"
    unfolding cell_index_def using row_index [OF assms(7,8,5), of "ny p - 2"] assms(2) by simp
  have "c ! k ! cell_index p jj ii =
      (if jj = ny p - 2 \<and> forcing_applies p cells obstacles (cell_index p jj ii)
       then cells ! k ! cell_index p jj ii + forcing_delta p k
       else cells ! k ! cell_index p jj ii)"
    using post lt assms(9) row by (auto simp add: accelerated_def)
  then show ?thesis
    using run post
    by (auto simp add: accelerated_def forcing_applies_def forcing_delta_def Let_def)
qed

theorem accelerate_flow_effect_witness:
  "grid_ok (tiny_param\<lparr>accel := 1 / 2\<rparr>) \<and> 2 \<le> ny (tiny_param\<lparr>accel := 1 / 2\<rparr>)
   \<and> wf_speed (tiny_param\<lparr>accel := 1 / 2\<rparr>) tiny_cells
   \<and> wf_obstacles (tiny_param\<lparr>accel := 1 / 2\<rparr>) [0, 0]
   \<and> (\<exists>c. accelerate_flow (tiny_param\<lparr>accel := 1 / 2\<rparr>) tiny_cells [0, 0] = Some c
          \<and> c ! 3 ! 0 = 2 \<and> c ! 3 ! 1 = 40)"
proof -
  let ?p = "tiny_param\<lparr>accel := 1 / 2\<rparr>"
  have h: "grid_ok ?p" "2 \<le> ny ?p" "wf_speed ?p tiny_cells" "wf_obstacles ?p [0, 0]"
    "0 < ny ?p" "0 < nx ?p" "(0 :: int) \<le> 1" "1 < ny ?p" "(3 :: nat) < 9"
    by (simp_all add: grid_ok_def wf_speed_def wf_obstacles_def tiny_param_def tiny_cells_def)
  have v: "cell_index ?p 0 0 = 0" "cell_index ?p 1 0 = 1" "density ?p = 36" "accel ?p = 1 / 2"
    "ny ?p = 2" "tiny_cells ! 3 = [4, 40]" "tiny_cells ! 6 = [1, 10]" "tiny_cells ! 7 = [1, 10]"
    by (simp_all add: cell_index_def tiny_param_def tiny_cells_def)
  show ?thesis
    using accelerate_flow_effect [OF h(1-4) order_refl h(5) order_refl h(6) h(9)]
      accelerate_flow_effect [OF h(1-4) h(7,8) order_refl h(6) h(9)]
    by (auto simp add: h v)
qed

text \<open>
  With \<open>w1 = 4\<close> and \<open>w2 = 1\<close>, a cell whose channels 3, 6 and 7 hold 4, 1 and 1 would be
  left with zeros, which are not negative, and \<open>accelerate_flow\<close> leaves it unchanged.
  On a grid of one row the first read, at row -1, is out of range.
\<close>
theorem accelerate_flow_guard_counterexample:
  "accelerate_flow (tiny_param\<lparr>accel := 1\<rparr>) tiny_cells [0, 0] = Some tiny_cells
   \<and> ny (tiny_param\<lparr>accel := 1\<rparr>) - 2 = 0
   \<and> density (tiny_param\<lparr>accel := 1\<rparr>) * accel (tiny_param\<lparr>accel := 1\<rparr>) / 9 = 4
   \<and> density (tiny_param\<lparr>accel := 1\<rparr>) * accel (tiny_param\<lparr>accel := 1\<rparr>) / 36 = 1
   \<and> tiny_cells ! 3 ! 0 - 4 = 0 \<and> tiny_cells ! 6 ! 0 - 1 = 0 \<and> tiny_cells ! 7 ! 0 - 1 = 0
   \<and> accelerate_flow (tiny_param\<lparr>ny := 1\<rparr>) [[16], [4], [4], [4], [4], [1], [1], [1], [1]] [0]
       = None"
  by (simp add: accelerate_eval tiny_param_def tiny_cells_def)

section \<open>Rounding to binary32\<close>













section \<open>The state at rest\<close>
















section \<open>Conservation of the total density\<close>

lemma cell_loop:
  assumes wf: "wf_speed p cells" and idx: "0 \<le> z" "z < nx p * ny p"
  shows "for_loop 0 (int NSPEEDS)
           (\<lambda>kk total. do { v \<leftarrow> rd_speed cells (nat kk) z; Some (total + v) }) t
         = Some (t + cell_sum cells (nat z))"
proof -
  have rd: "rd_speed cells k z = Some (cells ! k ! nat z)" if "k < 9" for k
    using wf idx that by (simp add: rd_speed_Some wf_speed_length wf_speed_channel)
  show ?thesis
    by (simp add: for_loop.simps NSPEEDS_def rd cell_sum_def)
qed

lemma total_density_eq:
  assumes ok: "grid_ok p" and wf: "wf_speed p cells"
  shows "total_density p cells = Some (\<Sum>i<nat (nx p * ny p). cell_sum cells i)"
proof -
  define body where "body = (\<lambda>jj ii. for_loop 0 (int NSPEEDS)
      (\<lambda>kk total. do { v \<leftarrow> rd_speed cells (nat kk) (ii + jj * nx p); Some (total + v) }))"
  define I where "I = (\<lambda>m t. t = (\<Sum>i<m. cell_sum cells i))"
  have cell: "\<exists>t'. body jj ii t = Some t' \<and> I (nat (ii + 1 + jj * nx p)) t'"
    if rng: "0 \<le> jj" "jj < ny p" "0 \<le> ii" "ii < nx p" and inv: "I (nat (ii + jj * nx p)) t"
    for jj ii t
  proof -
    have idx: "0 \<le> ii + jj * nx p" "ii + jj * nx p < nx p * ny p"
      using cell_index_bounds [OF rng(3,4) rng(1,2)] by auto
    have m': "nat (ii + 1 + jj * nx p) = Suc (nat (ii + jj * nx p))"
      using idx by (simp add: nat_add_distrib)
    show ?thesis
      unfolding body_def cell_loop [OF wf idx] m' using inv by (simp add: I_def)
  qed
  have row: "\<exists>t'. for_loop 0 (nx p) (body jj) t = Some t' \<and> I (nat ((jj + 1) * nx p)) t'"
    if rng: "0 \<le> jj" "jj < ny p" and inv: "I (nat (jj * nx p)) t" for jj t
  proof -
    have "\<exists>t'. for_loop 0 (nx p) (body jj) t = Some t' \<and> I (nat (nx p + jj * nx p)) t'"
    proof (rule for_loop_total [where I = "\<lambda>ii. I (nat (ii + jj * nx p))"])
      show "I (nat (0 + jj * nx p)) t" using inv by simp
      show "0 \<le> nx p" using ok by (simp add: grid_ok_def)
    next
      fix j s assume "0 \<le> j" "j < nx p" "I (nat (j + jj * nx p)) s"
      then show "\<exists>t'. body jj j s = Some t' \<and> I (nat (j + 1 + jj * nx p)) t'"
        using cell [OF rng] by blast
    qed
    then show ?thesis by (simp add: algebra_simps)
  qed
  have "\<exists>t'. for_loop 0 (ny p) (\<lambda>jj. for_loop 0 (nx p) (body jj)) 0 = Some t'
          \<and> I (nat (ny p * nx p)) t'"
  proof (rule for_loop_total [where I = "\<lambda>jj. I (nat (jj * nx p))"])
    show "I (nat (0 * nx p)) 0" by (simp add: I_def)
    show "0 \<le> ny p" using ok by (simp add: grid_ok_def)
  next
    fix j s assume "0 \<le> j" "j < ny p" "I (nat (j * nx p)) s"
    then show "\<exists>t'. for_loop 0 (nx p) (body j) s = Some t' \<and> I (nat ((j + 1) * nx p)) t'"
      using row by blast
  qed
  then show ?thesis
    by (auto simp add: total_density_def body_def I_def mult.commute)
qed

lemma sum_list_nth: "sum_list (xs :: real list) = (\<Sum>i<length xs. xs ! i)"
  by (simp add: sum_list_sum_nth atLeast0LessThan)

lemma grid_sum_cells:
  assumes "wf_speed p cells"
  shows "grid_sum cells = (\<Sum>i<nat (nx p * ny p). cell_sum cells i)"
proof -
  obtain c0 c1 c2 c3 c4 c5 c6 c7 c8 where c: "cells = [c0, c1, c2, c3, c4, c5, c6, c7, c8]"
    using assms by (auto simp: wf_speed_def elim: list9)
  have len: "length c0 = nat (nx p * ny p)" "length c1 = nat (nx p * ny p)"
    "length c2 = nat (nx p * ny p)" "length c3 = nat (nx p * ny p)"
    "length c4 = nat (nx p * ny p)" "length c5 = nat (nx p * ny p)"
    "length c6 = nat (nx p * ny p)" "length c7 = nat (nx p * ny p)"
    "length c8 = nat (nx p * ny p)"
    using assms by (simp_all add: wf_speed_def c)
  show ?thesis
    by (simp add: grid_sum_def c cell_sum_def sum_list_nth len sum.distrib)
qed

lemma shift_less:
  assumes ok: "grid_ok p"
  shows "shift p dx dy i < nat (nx p * ny p)"
proof -
  have pos: "0 < nx p" "0 < ny p" using ok by (simp_all add: grid_ok_def)
  have "0 \<le> (int i mod nx p + dx) mod nx p" "(int i mod nx p + dx) mod nx p < nx p"
    "0 \<le> (int i div nx p + dy) mod ny p" "(int i div nx p + dy) mod ny p < ny p"
    using pos by simp_all
  from cell_index_bounds [OF this] show ?thesis
    by (simp add: shift_def)
qed

lemma shift_inverse:
  assumes ok: "grid_ok p" and lt: "i < nat (nx p * ny p)"
  shows "shift p (- dx) (- dy) (shift p dx dy i) = i"
proof -
  have pos: "0 < nx p" "0 < ny p" using ok by (simp_all add: grid_ok_def)
  define a where "a = int i mod nx p"
  define b where "b = int i div nx p"
  note ab = index_cell [OF pos(1) lt, folded a_def b_def]
  define a' where "a' = (a + dx) mod nx p"
  define b' where "b' = (b + dy) mod ny p"
  have a': "0 \<le> a'" "a' < nx p" and b': "0 \<le> b'" "b' < ny p"
    using pos by (simp_all add: a'_def b'_def)
  have s: "shift p dx dy i = nat (a' + b' * nx p)"
    by (simp add: shift_def a_def b_def a'_def b'_def)
  have back_a: "(a' + - dx) mod nx p = a"
  proof -
    have "(a' + - dx) mod nx p = (a + dx - dx) mod nx p"
      unfolding a'_def by (simp add: mod_diff_left_eq)
    then show ?thesis using ab by simp
  qed
  have back_b: "(b' + - dy) mod ny p = b"
  proof -
    have "(b' + - dy) mod ny p = (b + dy - dy) mod ny p"
      unfolding b'_def by (simp add: mod_diff_left_eq)
    then show ?thesis using ab by simp
  qed
  have "shift p (- dx) (- dy) (nat (a' + b' * nx p)) = nat (a + b * nx p)"
    unfolding shift_def linear_index [OF a' b'(1)] back_a back_b ..
  also have "a + b * nx p = int i"
    by (simp add: a_def b_def)
  finally show ?thesis by (simp add: s)
qed

lemma sum_shift:
  assumes ok: "grid_ok p"
  shows "(\<Sum>i<nat (nx p * ny p). f (shift p dx dy i)) = (\<Sum>i<nat (nx p * ny p). f i)"
proof (rule sum.reindex_bij_witness [where i = "shift p (- dx) (- dy)" and j = "shift p dx dy"])
  fix a assume "a \<in> {..<nat (nx p * ny p)}"
  then show "shift p (- dx) (- dy) (shift p dx dy a) = a"
    using shift_inverse [OF ok] by simp
next
  fix a assume "a \<in> {..<nat (nx p * ny p)}"
  show "shift p dx dy a \<in> {..<nat (nx p * ny p)}"
    using shift_less [OF ok] by simp
next
  fix b assume "b \<in> {..<nat (nx p * ny p)}"
  then show "shift p dx dy (shift p (- dx) (- dy) b) = b"
    using shift_inverse [OF ok, of b "- dx" "- dy"] by simp
next
  fix b assume "b \<in> {..<nat (nx p * ny p)}"
  show "shift p (- dx) (- dy) b \<in> {..<nat (nx p * ny p)}"
    using shift_less [OF ok] by simp
next
  fix a show "f (shift p dx dy a) = f (shift p dx dy a)" ..
qed

lemma upstream_at_shift:
  assumes ok: "grid_ok p" and lt: "i < nat (nx p * ny p)"
  shows "local_density_of (upstream_at p cells i) =
     cells ! 0 ! shift p 0 0 i + cells ! 1 ! shift p (- 1) 0 i + cells ! 2 ! shift p 0 (- 1) i
       + cells ! 3 ! shift p 1 0 i + cells ! 4 ! shift p 0 1 i
       + cells ! 5 ! shift p (- 1) (- 1) i + cells ! 6 ! shift p 1 (- 1) i
       + cells ! 7 ! shift p 1 1 i + cells ! 8 ! shift p (- 1) 1 i"
proof -
  have pos: "0 < nx p" "0 < ny p" using ok by (simp_all add: grid_ok_def)
  note ab = index_cell [OF pos(1) lt]
  have id: "int i div nx p mod ny p = int i div nx p"
    using ab by simp
  show ?thesis
    by (simp add: local_density_of_def upstream_at_def upstream_def shift_def id)
qed

lemma d_equ_sum: "local_density_of (d_equ rho ux uy) = rho"
  by (simp add: local_density_of_def d_equ_def Let_def field_simps)

lemma relax_values_sum:
  "local_density_of (relax_values om s d)
     = local_density_of s + om * (local_density_of d - local_density_of s)"
  by (simp add: local_density_of_def relax_values_def algebra_simps)

lemma rebound_values_sum: "local_density_of (rebound_values s) = local_density_of s"
  by (simp add: local_density_of_def rebound_values_def)

lemma new_values_sum:
  "local_density_of (new_values p s ob) = local_density_of s"
  by (simp add: new_values_def rebound_values_sum relax_values_sum d_equ_sum)

lemma propagate_conserves:
  assumes ok: "grid_ok p" and wf: "wf_speed p cells" "wf_speed p tmp_cells" "wf_obstacles p obstacles"
    and run: "propagate p cells tmp_cells obstacles = Some (out, av)"
  shows "(\<Sum>i<nat (nx p * ny p). cell_sum out i) = (\<Sum>i<nat (nx p * ny p). cell_sum cells i)"
proof -
  let ?N = "nat (nx p * ny p)"
  note post = propagate_post(1) [OF ok wf run, unfolded propagated_def, simplified]
  have "cell_sum out i = local_density_of (upstream_at p cells i)" if "i < ?N" for i
  proof -
    have "cell_sum out i
        = local_density_of (new_values p (upstream_at p cells i) (obstacles ! i))"
      using post that by (simp add: cell_sum_def local_density_of_def)
    then show ?thesis by (simp add: new_values_sum)
  qed
  then have "(\<Sum>i<?N. cell_sum out i) = (\<Sum>i<?N. local_density_of (upstream_at p cells i))"
    by (intro sum.cong) simp_all
  also have "\<dots> = (\<Sum>i<?N.
       cells ! 0 ! shift p 0 0 i + cells ! 1 ! shift p (- 1) 0 i + cells ! 2 ! shift p 0 (- 1) i
         + cells ! 3 ! shift p 1 0 i + cells ! 4 ! shift p 0 1 i
         + cells ! 5 ! shift p (- 1) (- 1) i + cells ! 6 ! shift p 1 (- 1) i
         + cells ! 7 ! shift p 1 1 i + cells ! 8 ! shift p (- 1) 1 i)"
    by (intro sum.cong refl upstream_at_shift [OF ok]) simp
  also have "\<dots> = (\<Sum>i<?N. cell_sum cells i)"
  proof -
    have s: "(\<Sum>i<?N. cells ! k ! shift p dx dy i) = (\<Sum>i<?N. cells ! k ! i)" for k dx dy
      using sum_shift [OF ok, of "\<lambda>i. cells ! k ! i"] by simp
    show ?thesis
      by (simp add: sum.distrib cell_sum_def s)
  qed
  finally show ?thesis .
qed

lemma forcing_delta_sum:
  "forcing_delta p 0 + forcing_delta p 1 + forcing_delta p 2 + forcing_delta p 3
     + forcing_delta p 4 + forcing_delta p 5 + forcing_delta p 6 + forcing_delta p 7
     + forcing_delta p 8 = 0"
  by (simp add: forcing_delta_def Let_def)

lemma accelerate_conserves:
  assumes ok: "grid_ok p" and wf: "wf_speed p cells" "wf_obstacles p obstacles"
    and run: "accelerate_flow p cells obstacles = Some c"
  shows "wf_speed p c"
    and "i < nat (nx p * ny p) \<Longrightarrow> cell_sum c i = cell_sum cells i"
proof -
  have ny: "2 \<le> ny p"
    using accelerate_flow_single_row [OF ok, of cells obstacles] run by (cases "ny p < 2") simp_all
  from accelerate_flow_post [OF ok ny wf] run
  have post: "accelerated p cells obstacles (nat (nx p)) c" by auto
  then show "wf_speed p c" by (simp add: accelerated_def)
  assume lt: "i < nat (nx p * ny p)"
  define cond where "cond = (nat ((ny p - 2) * nx p) \<le> i \<and> i < nat ((ny p - 2) * nx p) + nat (nx p)
      \<and> forcing_applies p cells obstacles i)"
  have nth: "c ! k ! i = cells ! k ! i + (if cond then forcing_delta p k else 0)" if "k < 9" for k
    using post lt that by (simp add: accelerated_def cond_def)
  show "cell_sum c i = cell_sum cells i"
    using forcing_delta_sum [of p] by (simp add: cell_sum_def nth)
qed

text \<open>
  When \<open>timestep\<close> returns, \<open>total_density\<close> of the grid it filled equals
  \<open>total_density\<close> of the grid it was given, before forcing; both are the sum of all
  values of their grid.
\<close>
lemma timestep_conserves:
  assumes "grid_ok p" and "wf_speed p cells" and "wf_speed p tmp_cells"
    and "wf_obstacles p obstacles"
    and "timestep p cells tmp_cells obstacles = Some (c, out, av)"
  shows "total_density p out = total_density p cells
         \<and> total_density p cells = Some (grid_sum cells)
         \<and> total_density p c = Some (grid_sum cells)"
proof -
  let ?N = "nat (nx p * ny p)"
  from assms(5) have acc: "accelerate_flow p cells obstacles = Some c"
    and pr: "propagate p c tmp_cells obstacles = Some (out, av)"
    by (auto simp add: timestep_def split: bind_splits)
  note a = accelerate_conserves [OF assms(1,2,4) acc]
  have wfo: "wf_speed p out"
    using propagate_post(1) [OF assms(1) a(1) assms(3,4) pr] by (simp add: propagated_def)
  have "(\<Sum>i<?N. cell_sum out i) = (\<Sum>i<?N. cell_sum c i)"
    by (rule propagate_conserves [OF assms(1) a(1) assms(3,4) pr])
  also have "\<dots> = (\<Sum>i<?N. cell_sum cells i)"
    by (intro sum.cong refl a(2)) simp
  finally have eq: "(\<Sum>i<?N. cell_sum out i) = (\<Sum>i<?N. cell_sum cells i)" .
  have "total_density p out = Some (\<Sum>i<?N. cell_sum cells i)"
    using total_density_eq [OF assms(1) wfo] eq by simp
  moreover have "total_density p c = Some (\<Sum>i<?N. cell_sum cells i)"
    using total_density_eq [OF assms(1) a(1)] a(2) by simp
  moreover note total_density_eq [OF assms(1,2)] grid_sum_cells [OF assms(2)]
  ultimately show ?thesis by simp
qed

text \<open>
  C4, as the code has it. On a grid with at least two rows, for a state and an obstacle
  mask such that after forcing the nine values gathered at every fluid cell have a sum
  other than zero, one full step returns and, under exact arithmetic, conserves the total
  density: \<open>total_density\<close> of the grid it filled equals \<open>total_density\<close> of the grid it
  was given, before forcing, which is the sum of all values of that grid.
\<close>
theorem timestep_conserves_total_density:
  assumes "grid_ok p" and "2 \<le> ny p" and "wf_speed p cells" and "wf_speed p tmp_cells"
    and "wf_obstacles p obstacles"
    and "list_all
           (\<lambda>i. obstacles ! i \<noteq> 0
                \<or> local_density_of (upstream_at p (forced_grid p cells obstacles) i) \<noteq> 0)
           [0..<nat (nx p * ny p)]"
  shows "\<exists>out av. timestep p cells tmp_cells obstacles
                     = Some (forced_grid p cells obstacles, out, av)
           \<and> total_density p out = total_density p cells
           \<and> total_density p cells = Some (grid_sum cells)"
proof -
  let ?c = "forced_grid p cells obstacles"
  have acc: "accelerate_flow p cells obstacles = Some ?c"
    by (rule accelerate_flow_forced [OF assms(1,2,3,5)])
  have "cell_defined (upstream_at p ?c i) (obstacles ! i)" if "i < nat (nx p * ny p)" for i
    using assms(6) that by (simp add: list_all_length cell_defined_def)
  then obtain out av where pr: "propagate p ?c tmp_cells obstacles = Some (out, av)"
    using propagate_total [OF assms(1) forced_grid_wf assms(4,5)] by blast
  have run: "timestep p cells tmp_cells obstacles = Some (?c, out, av)"
    by (simp add: timestep_def acc pr)
  from timestep_conserves [OF assms(1,3,4,5) run] run show ?thesis by simp
qed

theorem timestep_conserves_total_density_witness:
  "grid_ok (tiny_param\<lparr>accel := 1 / 2\<rparr>) \<and> 2 \<le> ny (tiny_param\<lparr>accel := 1 / 2\<rparr>)
   \<and> wf_speed (tiny_param\<lparr>accel := 1 / 2\<rparr>) tiny_cells
   \<and> wf_speed (tiny_param\<lparr>accel := 1 / 2\<rparr>) tiny_tmp
   \<and> wf_obstacles (tiny_param\<lparr>accel := 1 / 2\<rparr>) [0, 1]
   \<and> forced_grid (tiny_param\<lparr>accel := 1 / 2\<rparr>) tiny_cells [0, 1] =
       [[16, 160], [6, 40], [4, 40], [2, 40], [4, 40],
        [3 / 2, 10], [1 / 2, 10], [1 / 2, 10], [3 / 2, 10]]
   \<and> timestep (tiny_param\<lparr>accel := 1 / 2\<rparr>) tiny_cells tiny_tmp [0, 1] =
       Some ([[16, 160], [6, 40], [4, 40], [2, 40], [4, 40],
              [3 / 2, 10], [1 / 2, 10], [1 / 2, 10], [3 / 2, 10]],
             [[1079 / 27, 160], [631 / 54, 40], [3023 / 108, 4], [451 / 54, 40],
              [3023 / 108, 4], [1549 / 216, 1 / 2], [1477 / 216, 3 / 2],
              [1477 / 216, 3 / 2], [1549 / 216, 1 / 2]],
             Num (sqrt (1 / 1296)))
   \<and> grid_sum tiny_cells = 396
   \<and> total_density (tiny_param\<lparr>accel := 1 / 2\<rparr>) tiny_cells = Some 396
   \<and> total_density (tiny_param\<lparr>accel := 1 / 2\<rparr>)
        [[1079 / 27, 160], [631 / 54, 40], [3023 / 108, 4], [451 / 54, 40],
         [3023 / 108, 4], [1549 / 216, 1 / 2], [1477 / 216, 3 / 2],
         [1477 / 216, 3 / 2], [1549 / 216, 1 / 2]]
       = Some 396"
proof -
  let ?p = "tiny_param\<lparr>accel := 1 / 2\<rparr>"
  have h: "grid_ok ?p" "2 \<le> ny ?p" "wf_speed ?p tiny_cells" "wf_speed ?p tiny_tmp"
    "wf_obstacles ?p [0, 1]"
    by (simp_all add: grid_ok_def wf_speed_def wf_obstacles_def tiny_param_def tiny_cells_def
        tiny_tmp_def)
  have f: "forced_grid ?p tiny_cells [0, 1] =
       [[16, 160], [6, 40], [4, 40], [2, 40], [4, 40],
        [3 / 2, 10], [1 / 2, 10], [1 / 2, 10], [3 / 2, 10]]"
    by (simp add: forced_grid_def forcing_applies_def forcing_delta_def Let_def upt_rec
        tiny_param_def tiny_cells_def)
  have d: "list_all
      (\<lambda>i. [0, 1] ! i \<noteq> (0 :: int)
           \<or> local_density_of (upstream_at ?p (forced_grid ?p tiny_cells [0, 1]) i) \<noteq> 0)
      [0..<nat (nx ?p * ny ?p)]"
    unfolding f
    by (simp add: upstream_at_def upstream_def local_density_of_def upt_rec tiny_param_def)
  have run: "timestep ?p tiny_cells tiny_tmp [0, 1] =
       Some ([[16, 160], [6, 40], [4, 40], [2, 40], [4, 40],
              [3 / 2, 10], [1 / 2, 10], [1 / 2, 10], [3 / 2, 10]],
             [[1079 / 27, 160], [631 / 54, 40], [3023 / 108, 4], [451 / 54, 40],
              [3023 / 108, 4], [1549 / 216, 1 / 2], [1477 / 216, 3 / 2],
              [1477 / 216, 3 / 2], [1549 / 216, 1 / 2]],
             Num (sqrt (1 / 1296)))"
    by (simp add: timestep_eval tiny_param_def tiny_cells_def tiny_tmp_def)
  have g: "grid_sum tiny_cells = 396"
    by (simp add: grid_sum_def tiny_cells_def)
  show ?thesis
    using timestep_conserves_total_density [OF h d] h f run g by simp
qed

text \<open>
  A state of non-negative values whose total density is 13: the fluid cell of row 0
  gathers nine zeros, divides 0 by 0 and stores values that are not numbers. And a grid of
  one row, where the first read of \<open>accelerate_flow\<close>, at row -1, is out of range.
\<close>
theorem timestep_conserves_total_density_counterexample:
  "wf_speed tiny_param void_cells \<and> list_all (list_all (\<lambda>v. 0 \<le> v)) void_cells
   \<and> total_density tiny_param void_cells = Some 13
   \<and> accelerate_flow tiny_param void_cells [0, 0] = Some void_cells
   \<and> gather tiny_param void_cells 0 0 = Some [0, 0, 0, 0, 0, 0, 0, 0, 0]
   \<and> float_div (x_momentum [0, 0, 0, 0, 0, 0, 0, 0, 0])
        (local_density_of [0, 0, 0, 0, 0, 0, 0, 0, 0]) = NaN
   \<and> timestep tiny_param void_cells tiny_tmp [0, 0] = None
   \<and> total_density (tiny_param\<lparr>ny := 1\<rparr>) [[16], [4], [4], [4], [4], [1], [1], [1], [1]]
       = Some 36
   \<and> timestep (tiny_param\<lparr>ny := 1\<rparr>) [[16], [4], [4], [4], [4], [1], [1], [1], [1]]
        [[0], [0], [0], [0], [0], [0], [0], [0], [0]] [0]
       = None"
  by (simp add: timestep_eval total_density_def NSPEEDS_def wf_speed_def x_momentum_def
      local_density_of_def tiny_param_def void_cells_def tiny_tmp_def)

text \<open>
  \<open>timestep\<close> does return on a grid of at least two rows whose values are all positive,
  when \<open>density * accel\<close> is not negative.
\<close>
lemma timestep_defined:
  assumes ok: "grid_ok p" "2 \<le> ny p"
    and wf: "wf_speed p cells" "wf_speed p tmp_cells" "wf_obstacles p obstacles"
    and acc: "0 \<le> density p * accel p"
    and pos: "list_all (list_all (\<lambda>v. 0 < v)) cells"
  shows "\<exists>c out av. timestep p cells tmp_cells obstacles = Some (c, out, av)"
proof -
  let ?N = "nat (nx p * ny p)"
  obtain c where run: "accelerate_flow p cells obstacles = Some c"
    and post: "accelerated p cells obstacles (nat (nx p)) c"
    using accelerate_flow_post [OF ok wf(1,3)] by blast
  have wfc: "wf_speed p c" using post by (simp add: accelerated_def)
  have cells_pos: "0 < cells ! k ! i" if "k < 9" "i < ?N" for k i
    using pos wf(1) that by (simp add: list_all_length wf_speed_def)
  have c_pos: "0 < c ! k ! i" if k: "k < 9" and i: "i < ?N" for k i
  proof (cases "c ! k ! i = cells ! k ! i")
    case True
    then show ?thesis using cells_pos [OF k i] by simp
  next
    case False
    then have app: "forcing_applies p cells obstacles i"
      and eq: "c ! k ! i = cells ! k ! i + forcing_delta p k"
      using post k i by (auto simp add: accelerated_def split: if_splits)
    have "k = 0 \<or> k = 1 \<or> k = 2 \<or> k = 3 \<or> k = 4 \<or> k = 5 \<or> k = 6 \<or> k = 7 \<or> k = 8"
      using k by arith
    then show ?thesis
      using app acc cells_pos [OF _ i] unfolding eq
      by (elim disjE) (simp_all add: forcing_applies_def forcing_delta_def Let_def add_pos_nonneg)
  qed
  have "cell_defined (upstream_at p c i) (obstacles ! i)" if i: "i < ?N" for i
  proof -
    have "0 < local_density_of (upstream_at p c i)"
      unfolding upstream_at_shift [OF ok(1) i]
      by (intro add_pos_pos c_pos shift_less [OF ok(1)]) simp_all
    then show ?thesis by (simp add: cell_defined_def)
  qed
  then obtain out av where "propagate p c tmp_cells obstacles = Some (out, av)"
    using propagate_total [OF ok(1) wfc wf(2,3)] by blast
  then show ?thesis using run by (simp add: timestep_def)
qed

section \<open>The timestep loop of \<^verbatim>\<open>main\<close>\<close>

lemma take_two_updates:
  assumes "Suc m < length xs"
  shows "take (Suc (Suc m)) (xs[m := a, Suc m := b]) = take m xs @ [a, b]"
proof -
  have "take (Suc (Suc m)) (xs[m := a, Suc m := b]) = take (Suc m) (xs[m := a, Suc m := b]) @ [b]"
    using assms by (simp add: take_Suc_conv_app_nth)
  also have "take (Suc m) (xs[m := a, Suc m := b]) = take (Suc m) (xs[m := a])"
    by simp
  also have "\<dots> = take m xs @ [a]"
    using assms by (simp add: take_Suc_conv_app_nth)
  finally show ?thesis by simp
qed

lemma timesteps_length:
  "timesteps p obstacles n cells tmp_cells = Some (a, b, vs) \<Longrightarrow> length vs = n"
  by (induction n arbitrary: cells tmp_cells a b vs) (auto split: option.splits)

text \<open>
  For an even \<open>maxIters\<close> the loop of \<open>main\<close> is \<open>maxIters\<close> consecutive timesteps, and
  fills the buffer with their average velocities.
\<close>
lemma main_loop_from:
  assumes "even tt" "even (maxIters p)" "0 \<le> tt" "tt \<le> maxIters p"
    and "length av = nat (maxIters p)"
  shows "for_loop2 tt (maxIters p) (main_body p obstacles) (cells, tmp_cells, av) =
     (case timesteps p obstacles (nat (maxIters p - tt)) cells tmp_cells of
        None \<Rightarrow> None
      | Some (a, b, vs) \<Rightarrow> Some (a, b, take (nat tt) av @ vs))"
  using assms
proof (induction "nat (maxIters p - tt)" arbitrary: tt cells tmp_cells av rule: less_induct)
  case less
  show ?case
  proof (cases "tt < maxIters p")
    case False
    with less.prems have "tt = maxIters p" by simp
    then show ?thesis
      using less.prems by (simp add: for_loop2.simps)
  next
    case True
    have "tt \<noteq> maxIters p - 1"
      using less.prems(1,2) by auto
    with True have le: "tt + 2 \<le> maxIters p" by simp
    define m where "m = nat (maxIters p - (tt + 2))"
    have steps: "nat (maxIters p - tt) = Suc (Suc m)"
      using le by (simp add: m_def)
    have idx: "nat (tt + 1) = Suc (nat tt)" "Suc (nat tt) < length av" "nat (tt + 2) = Suc (Suc (nat tt))"
      using le less.prems(3,5) by simp_all
    have wr1: "wr av tt v = Some (av[nat tt := v])" for v
      using idx less.prems(3) by (simp add: wr_def)
    have wr2: "wr (av[nat tt := v]) (tt + 1) w = Some (av[nat tt := v, Suc (nat tt) := w])" for v w
      using idx less.prems(3) by (simp add: wr_def)
    show ?thesis
    proof (cases "timestep p cells tmp_cells obstacles")
      case None
      then show ?thesis
        using True by (simp add: for_loop2.simps [of tt] main_body_def steps)
    next
      case (Some r1)
      obtain c1 t1 v1 where r1: "r1 = (c1, t1, v1)" by (cases r1)
      show ?thesis
      proof (cases "timestep p t1 c1 obstacles")
        case None
        then show ?thesis
          using True Some r1 by (simp add: for_loop2.simps [of tt] main_body_def steps wr1)
      next
        case (Some r2)
        obtain t2 c2 v2 where r2: "r2 = (t2, c2, v2)" by (cases r2)
        let ?av = "av[nat tt := v1, Suc (nat tt) := v2]"
        have body: "main_body p obstacles tt (cells, tmp_cells, av) = Some (c2, t2, ?av)"
          using \<open>timestep p cells tmp_cells obstacles = Some r1\<close> r1 Some r2
          by (simp add: main_body_def wr1 wr2)
        have IH: "for_loop2 (tt + 2) (maxIters p) (main_body p obstacles) (c2, t2, ?av) =
           (case timesteps p obstacles m c2 t2 of
              None \<Rightarrow> None
            | Some (a, b, vs) \<Rightarrow> Some (a, b, take (nat (tt + 2)) ?av @ vs))"
          unfolding m_def
          using less.prems le by (intro less.hyps) simp_all
        have tk: "take (nat (tt + 2)) ?av = take (nat tt) av @ [v1, v2]"
          unfolding idx(3) using take_two_updates [OF idx(2)] .
        show ?thesis
          using True body IH \<open>timestep p cells tmp_cells obstacles = Some r1\<close> r1 Some r2
          by (simp add: for_loop2.simps [of tt] steps tk split: option.splits)
      qed
    qed
  qed
qed

lemma main_loop_even:
  assumes "even (maxIters p)" and "length av_vels = nat (maxIters p)"
  shows "main_loop p obstacles (cells, tmp_cells, av_vels) =
           timesteps p obstacles (nat (maxIters p)) cells tmp_cells"
proof (cases "0 \<le> maxIters p")
  case True
  from main_loop_from [of 0 p av_vels obstacles cells tmp_cells] assms True
  show ?thesis
    by (simp add: main_loop_def split: option.splits)
next
  case False
  then show ?thesis
    using assms by (simp add: main_loop_def for_loop2.simps)
qed

text \<open>
  C7 fails on the code for an odd \<open>maxIters\<close>. With \<open>maxIters = 1\<close> and the buffer of
  one entry that \<open>initialise\<close> allocates, the loop calls \<open>timestep\<close> twice and its
  second store, at index 1, is out of range. Given a buffer of two entries the same run
  makes two timesteps and writes two entries.
\<close>
theorem main_loop_odd_maxIters:
  "maxIters tiny_param = 1
   \<and> main_loop tiny_param [0, 0] (tiny_rest, tiny_tmp, [NaN]) = None
   \<and> timestep tiny_param tiny_rest tiny_tmp [0, 0] = Some (tiny_rest, tiny_rest, Num 0)
   \<and> wr [NaN] 0 (Num 0) = Some [Num 0]
   \<and> timestep tiny_param tiny_rest tiny_rest [0, 0] = Some (tiny_rest, tiny_rest, Num 0)
   \<and> wr [Num 0] 1 (Num 0) = None
   \<and> main_loop tiny_param [0, 0] (tiny_rest, tiny_tmp, [NaN, NaN])
       = Some (tiny_rest, tiny_rest, [Num 0, Num 0])"
  by (simp add: main_loop_def main_body_def for_loop2.simps tiny_rest_timestep wr_def)
     (simp add: tiny_param_def)

section \<open>The final state written by \<^verbatim>\<open>write_values\<close>\<close>

text \<open>
  C9 fails on the code. On the 2 by 2 grid whose only obstacle is the cell of column 1
  and row 0, the line of that cell has the zero velocity and the pressure
  \<open>density * c_sq\<close> of the obstacle branch and the flag 0, read at \<open>ii * nx + jj = 2\<close>;
  the line of the fluid cell of column 0 and row 1 has the flag 1. On a grid of two
  columns and one row the same read is out of range.
\<close>
theorem write_values_flag_transposed:
  "write_values square_param square_cells [0, 1, 0, 0] =
     Some [(0, 0, Num 0, Num 0, Num 0, 12, 0),
           (1, 0, Num 0, Num 0, Num 0, 3, 0),
           (0, 1, Num 0, Num 0, Num 0, 12, 1),
           (1, 1, Num 0, Num 0, Num 0, 12, 0)]
   \<and> [0, 1, 0, 0] ! cell_index square_param 0 1 = (1 :: int)
   \<and> [0, 1, 0, 0] ! cell_index square_param 1 0 = (0 :: int)
   \<and> write_values (square_param\<lparr>ny := 1\<rparr>)
        [[16, 16], [4, 4], [4, 4], [4, 4], [4, 4], [1, 1], [1, 1], [1, 1], [1, 1]] [0, 0]
       = None"
  by (simp add: write_values_eval cell_index_def square_param_def square_cells_def)

end
